theory Spec2Isabelle
  imports Complex_Main
begin

section \<open>Exceptions\<close>

text \<open>
  The exceptions the scraper meets. Playwright's \<open>TimeoutError\<close> is a subclass of its
  \<open>Error\<close> (imported as \<open>PlaywrightError\<close>); every one of them is a Python \<open>Exception\<close>.
  A function that can raise returns \<open>error + 'a\<close>, with \<open>Inl\<close> for the exception.
\<close>

datatype error =
    OverflowError
  | ValueError
  | TypeError
  | IndexError
  | TimeoutError
  | PlaywrightError string
  | FileNotFoundError
  | EmptyDataError
  | OtherException string

section \<open>Dates\<close>

text \<open>
  A \<open>datetime.date\<close> is modelled by its proleptic Gregorian ordinal (\<open>date.toordinal()\<close>):
  \<open>date.min\<close> (0001-01-01) is 1 and \<open>date.max\<close> (9999-12-31) is 3652059. Adding a
  \<open>timedelta\<close> raises \<open>OverflowError\<close> when the result leaves that range, and so does
  building a \<open>timedelta\<close> of more than 999999999 days.
\<close>

type_synonym date = int

definition MAXORDINAL :: int where
  "MAXORDINAL = 3652059"

definition valid_date :: "date \<Rightarrow> bool" where
  "valid_date d \<longleftrightarrow> 1 \<le> d \<and> d \<le> MAXORDINAL"

definition timedelta :: "int \<Rightarrow> error + int" where
  "timedelta days = (if \<bar>days\<bar> \<le> 999999999 then Inr days else Inl OverflowError)"

definition date_add :: "date \<Rightarrow> int \<Rightarrow> error + date" where
  "date_add d days =
     (let o' = d + days in if 0 < o' \<and> o' \<le> MAXORDINAL then Inr o' else Inl OverflowError)"

definition date_plus_days :: "date \<Rightarrow> int \<Rightarrow> error + date" where
  \<comment> \<open>\<open>d + timedelta(days=j)\<close>\<close>
  "date_plus_days d j = (case timedelta j of Inl e \<Rightarrow> Inl e | Inr td \<Rightarrow> date_add d td)"

section \<open>Task partitioner: \<open>get_dates\<close>\<close>

text \<open>
  The body of \<open>for j in range(1, los+1)\<close>: append \<open>(current_date, current_date + j days)\<close>.
  \<open>[1..los]\<close> is \<open>range(1, los+1)\<close>, empty when \<open>los < 1\<close>.
\<close>

fun get_dates_inner :: "date \<Rightarrow> int list \<Rightarrow> (date \<times> date) list \<Rightarrow> error + (date \<times> date) list" where
  "get_dates_inner current_date [] date_tuples = Inr date_tuples"
| "get_dates_inner current_date (j # js) date_tuples =
     (case date_plus_days current_date j of
        Inl e \<Rightarrow> Inl e
      | Inr check_out \<Rightarrow> get_dates_inner current_date js (date_tuples @ [(current_date, check_out)]))"

text \<open>The loop \<open>while current_date <= end_date\<close>.\<close>

function get_dates_loop :: "date \<Rightarrow> date \<Rightarrow> int \<Rightarrow> (date \<times> date) list \<Rightarrow> error + (date \<times> date) list" where
  "get_dates_loop current_date end_date los date_tuples =
     (if current_date \<le> end_date then
        (case get_dates_inner current_date [1..los] date_tuples of
           Inl e \<Rightarrow> Inl e
         | Inr date_tuples' \<Rightarrow>
             (case date_plus_days current_date 1 of
                Inl e \<Rightarrow> Inl e
              | Inr next_date \<Rightarrow> get_dates_loop next_date end_date los date_tuples'))
      else Inr date_tuples)"
  by pat_completeness auto
termination
  by (relation "measure (\<lambda>(c, e, l, a). nat (e - c + 1))")
     (auto simp: date_plus_days_def timedelta_def date_add_def Let_def split: if_splits)

declare get_dates_loop.simps [simp del]

text \<open>
  \<open>get_dates(start_date=None, end_date=None, los=5)\<close>; \<open>today\<close> is what
  \<open>datetime.today().date()\<close> returns at the call.
\<close>

definition get_dates :: "date \<Rightarrow> date option \<Rightarrow> date option \<Rightarrow> int \<Rightarrow> error + (date \<times> date) list" where
  "get_dates today start_date end_date los =
     (let start_date' = (case start_date of None \<Rightarrow> today | Some s \<Rightarrow> s) in
      case (case end_date of None \<Rightarrow> date_plus_days start_date' 30 | Some e \<Rightarrow> Inr e) of
        Inl e \<Rightarrow> Inl e
      | Inr end_date' \<Rightarrow> get_dates_loop start_date' end_date' los [])"

text \<open>Tasks in the order "check-in day ascending, then stay length ascending".\<close>

definition task_before :: "date \<times> date \<Rightarrow> date \<times> date \<Rightarrow> bool" where
  "task_before p q \<longleftrightarrow> fst p < fst q \<or> (fst p = fst q \<and> snd p - fst p < snd q - fst q)"

definition tasks_of :: "date \<Rightarrow> date \<Rightarrow> int \<Rightarrow> (date \<times> date) list" where
  "tasks_of s e los = concat (map (\<lambda>d. map (\<lambda>j. (d, d + j)) [1..los]) [s..e])"

section \<open>Python values and dictionaries\<close>

text \<open>
  The values the program handles; \<open>PropertyCards\<close> is the locator
  \<open>page.locator("div[data-testid='property-card']")\<close>. A \<open>float\<close> is represented by the exact decimal value of
  the text it was parsed from (rounding to binary64 is not modelled). A \<open>dict\<close> keeps
  insertion order, so a record is an association list; assigning to a key that is present
  replaces its value in place, assigning to a new key appends it.
  Strings are lists of 8-bit characters, read as the code points below 256.
\<close>

datatype locator = PropertyCards

datatype pyval = PNone | PBool bool | PInt int | PFloat rat | PStr string | PLocator locator

type_synonym pydict = "(string \<times> pyval) list"

fun dict_set :: "string \<Rightarrow> pyval \<Rightarrow> pydict \<Rightarrow> pydict" where
  "dict_set k v [] = [(k, v)]"
| "dict_set k v (p # ps) = (if fst p = k then (k, v) # ps else p # dict_set k v ps)"

definition keys :: "pydict \<Rightarrow> string list" where
  "keys d = map fst d"

definition bindE :: "error + 'a \<Rightarrow> ('a \<Rightarrow> error + 'b) \<Rightarrow> error + 'b" where
  "bindE m f = (case m of Inl e \<Rightarrow> Inl e | Inr x \<Rightarrow> f x)"

definition try_except :: "error + 'a \<Rightarrow> 'a \<Rightarrow> 'a" where
  \<comment> \<open>\<open>try: v = body  except Exception: v = default\<close>\<close>
  "try_except body dflt = (case body of Inl e \<Rightarrow> dflt | Inr v \<Rightarrow> v)"

section \<open>String operations\<close>

definition isspace :: "char \<Rightarrow> bool" where
  \<comment> \<open>\<open>str.isspace\<close>, which is also what \<open>strip()\<close>, \<open>split()\<close> and the pattern \<open>\s\<close> use\<close>
  "isspace c \<longleftrightarrow>
     (let n = (of_char c :: nat) in (9 \<le> n \<and> n \<le> 13) \<or> (28 \<le> n \<and> n \<le> 32) \<or> n = 133 \<or> n = 160)"

definition isdigit :: "char \<Rightarrow> bool" where
  \<comment> \<open>the pattern \<open>\d\<close>: below code point 256 the decimal digits are \<open>0\<close> to \<open>9\<close>\<close>
  "isdigit c \<longleftrightarrow> (let n = (of_char c :: nat) in 48 \<le> n \<and> n \<le> 57)"

definition lower_char :: "char \<Rightarrow> char" where
  "lower_char c =
     (let n = (of_char c :: nat) in
      if (65 \<le> n \<and> n \<le> 90) \<or> (192 \<le> n \<and> n \<le> 222 \<and> n \<noteq> 215) then char_of (n + 32) else c)"

definition lower :: "string \<Rightarrow> string" where
  "lower s = map lower_char s"

definition strip :: "string \<Rightarrow> string" where
  "strip s = rev (dropWhile isspace (rev (dropWhile isspace s)))"

fun split_ws :: "string \<Rightarrow> string \<Rightarrow> string list" where
  "split_ws [] cur = (if cur = [] then [] else [cur])"
| "split_ws (c # cs) cur =
     (if isspace c then (if cur = [] then split_ws cs [] else cur # split_ws cs [])
      else split_ws cs (cur @ [c]))"

definition py_split :: "string \<Rightarrow> string list" where
  \<comment> \<open>\<open>s.split()\<close>\<close>
  "py_split s = split_ws s []"

definition index0 :: "'a list \<Rightarrow> error + 'a" where
  \<comment> \<open>\<open>xs[0]\<close>\<close>
  "index0 xs = (case xs of [] \<Rightarrow> Inl IndexError | x # _ \<Rightarrow> Inr x)"

fun contains :: "string \<Rightarrow> string \<Rightarrow> bool" where
  \<comment> \<open>\<open>sub in s\<close>\<close>
  "contains sub [] = (sub = [])"
| "contains sub (c # cs) = (take (length sub) (c # cs) = sub \<or> contains sub cs)"

definition digits_val :: "string \<Rightarrow> nat" where
  "digits_val ds = foldl (\<lambda>a c. 10 * a + ((of_char c :: nat) - 48)) 0 ds"

fun int_body_ok :: "string \<Rightarrow> bool" where
  "int_body_ok [] = False"
| "int_body_ok [c] = isdigit c"
| "int_body_ok (c # d # r) =
     (isdigit c \<and> (if d = CHR ''_'' then int_body_ok r else int_body_ok (d # r)))"

definition py_int :: "string \<Rightarrow> error + int" where
  \<comment> \<open>\<open>int(s)\<close> in base 10: surrounding whitespace, an optional sign, digits with single
      underscores between them; anything else is a \<open>ValueError\<close> (the limit that recent versions
      put on the number of digits is not modelled)\<close>
  "py_int s =
     (let t = strip s;
          neg = (t \<noteq> [] \<and> hd t = CHR ''-'');
          body = (if t \<noteq> [] \<and> (hd t = CHR ''-'' \<or> hd t = CHR ''+'') then tl t else t)
      in if int_body_ok body
         then Inr ((if neg then - 1 else 1) * int (digits_val (filter (\<lambda>c. c \<noteq> CHR ''_'') body)))
         else Inl ValueError)"

text \<open>
  The pattern \<open>\d+\.\d+\<close> matched at the start of a string: the digits before the point
  and the digits after it. Both runs are greedy and no shorter run can match, so the
  leftmost match is the first position where this succeeds.
\<close>

definition match_decimal_at :: "string \<Rightarrow> (string \<times> string) option" where
  "match_decimal_at s =
     (let ip = takeWhile isdigit s; r = dropWhile isdigit s in
      if ip = [] then None
      else (case r of
              [] \<Rightarrow> None
            | c # r' \<Rightarrow>
                if c = CHR ''.'' then
                  (let fp = takeWhile isdigit r' in if fp = [] then None else Some (ip, fp))
                else None))"

fun findall_decimal_first :: "string \<Rightarrow> (string \<times> string) option" where
  \<comment> \<open>\<open>re.findall(r"\d+\.\d+", s)\<close>: \<open>None\<close> for the empty list, else its first element\<close>
  "findall_decimal_first [] = None"
| "findall_decimal_first (c # cs) =
     (case match_decimal_at (c # cs) of Some m \<Rightarrow> Some m | None \<Rightarrow> findall_decimal_first cs)"

definition match_scored_at :: "string \<Rightarrow> (string \<times> string) option" where
  \<comment> \<open>\<open>Scored\s+(\d+\.\d+)\<close> matched at the start of a string: group 1\<close>
  "match_scored_at s =
     (if take 6 s = ''Scored'' then
        (let r = drop 6 s in
         if takeWhile isspace r = [] then None else match_decimal_at (dropWhile isspace r))
      else None)"

fun search_scored :: "string \<Rightarrow> (string \<times> string) option" where
  \<comment> \<open>\<open>re.search(r"Scored\s+(\d+\.\d+)", s)\<close>\<close>
  "search_scored [] = None"
| "search_scored (c # cs) =
     (case match_scored_at (c # cs) of Some m \<Rightarrow> Some m | None \<Rightarrow> search_scored cs)"

definition py_float :: "string \<times> string \<Rightarrow> rat" where
  \<comment> \<open>\<open>float\<close> of the text \<open>ip.fp\<close>\<close>
  "py_float m = (case m of (ip, fp) \<Rightarrow> of_nat (digits_val ip) + of_nat (digits_val fp) / 10 ^ length fp)"

section \<open>Record extractor: \<open>extract_hotel_data\<close>\<close>

text \<open>
  What a result card answers to each lookup the extractor makes: the text, attribute or
  visibility, or the exception the lookup raises. \<open>get_attribute\<close> returns \<open>None\<close> for a
  missing attribute.
\<close>

record card =
  title_text :: "error + string"
  star_label :: "error + string option"
  review_score_text :: "error + string"
  loc_score_label :: "error + string option"
  review_amount_text :: "error + string"
  bed_text :: "error + string"
  price_text :: "error + string"
  breakfast_visible :: "error + bool"
  free_cancellation_visible :: "error + bool"
  no_prepayment_visible :: "error + bool"
  card_inner_text :: "error + string"
  sustainability_visible :: "error + bool"
  distance_text :: "error + string"

definition extract_star_rating :: "card \<Rightarrow> pyval" where
  "extract_star_rating c =
     try_except
       (bindE (star_label c) (\<lambda>star_text.
          case star_text of
            None \<Rightarrow> Inr PNone
          | Some t \<Rightarrow>
              if t = [] then Inr PNone
              else bindE (index0 (py_split t)) (\<lambda>tok. bindE (py_int tok) (\<lambda>n. Inr (PInt n)))))
       PNone"

definition extract_rating_score :: "card \<Rightarrow> pyval" where
  "extract_rating_score c =
     try_except
       (bindE (review_score_text c) (\<lambda>review_score_text.
          case findall_decimal_first review_score_text of
            None \<Rightarrow> Inr PNone
          | Some m \<Rightarrow> Inr (PFloat (py_float m))))
       PNone"

definition extract_location_score :: "card \<Rightarrow> pyval" where
  "extract_location_score c =
     try_except
       (bindE (loc_score_label c) (\<lambda>loc_score_text.
          case loc_score_text of
            None \<Rightarrow> Inl TypeError
          | Some t \<Rightarrow>
              (case search_scored t of
                 None \<Rightarrow> Inr PNone
               | Some m \<Rightarrow> Inr (PFloat (py_float m)))))
       PNone"

definition extract_review_amount :: "card \<Rightarrow> pyval" where
  "extract_review_amount c =
     try_except
       (bindE (review_amount_text c) (\<lambda>review_amount_text.
          bindE (py_int (filter isdigit review_amount_text)) (\<lambda>n. Inr (PInt n))))
       PNone"

definition extract_text :: "error + string \<Rightarrow> string \<Rightarrow> pyval" where
  \<comment> \<open>\<open>try: v = ....inner_text(timeout=2000).strip()  except Exception: v = default\<close>\<close>
  "extract_text lookup dflt = PStr (try_except (bindE lookup (\<lambda>t. Inr (strip t))) dflt)"

definition extract_flag :: "error + bool \<Rightarrow> pyval" where
  \<comment> \<open>\<open>try: v = ....is_visible()  except Exception: v = False\<close>\<close>
  "extract_flag lookup = PBool (try_except lookup False)"

definition extract_centrally_located :: "card \<Rightarrow> pyval" where
  "extract_centrally_located c =
     PBool (try_except
       (bindE (card_inner_text c) (\<lambda>t.
          let card_text = lower t in
          Inr (contains ''centrally'' card_text \<or> contains ''subway access'' card_text)))
       False)"

definition extract_card :: "card \<Rightarrow> pydict" where
  \<comment> \<open>the body of the loop over the cards: the \<open>hotel_dict\<close> of one card\<close>
  "extract_card c =
     [(''hotel_name'', extract_text (title_text c) ''N/A''),
      (''star_rating'', extract_star_rating c),
      (''rating_score'', extract_rating_score c),
      (''location_score'', extract_location_score c),
      (''review_amount'', extract_review_amount c),
      (''bed_info'', extract_text (bed_text c) ''N/A''),
      (''price'', extract_text (price_text c) ''N/A''),
      (''breakfast_included'', extract_flag (breakfast_visible c)),
      (''free_cancellation'', extract_flag (free_cancellation_visible c)),
      (''no_prepayment_needed'', extract_flag (no_prepayment_visible c)),
      (''centrally_located'', extract_centrally_located c),
      (''sustainability_certification'', extract_flag (sustainability_visible c)),
      (''distance_from_downtown'', extract_text (distance_text c) [])]"

text \<open>
  \<open>extract_hotel_data(page)\<close>. The page answers \<open>hotel_cards.count()\<close> with the number of
  cards it holds, or raises; \<open>hotel_cards.nth(i)\<close> is the \<open>i\<close>-th of them. The loop runs over
  \<open>range(min(count, 100))\<close>.
\<close>

fun extract_loop :: "card list \<Rightarrow> nat list \<Rightarrow> pydict list \<Rightarrow> pydict list" where
  "extract_loop hotel_cards [] hotels_data = hotels_data"
| "extract_loop hotel_cards (i # is) hotels_data =
     extract_loop hotel_cards is (hotels_data @ [extract_card (hotel_cards ! i)])"

definition extract_hotel_data :: "error + card list \<Rightarrow> error + pydict list" where
  "extract_hotel_data page_cards =
     bindE page_cards (\<lambda>hotel_cards.
       let count = length hotel_cards in
       Inr (extract_loop hotel_cards [0..<min count 100] []))"

section \<open>Incremental loader: \<open>load_hotel_cards\<close>\<close>

text \<open>
  The helper calls and pauses the loader makes, in order. The helpers
  (\<open>full_scroll_bottom\<close>, \<open>human_like_scroll\<close>, \<open>dismiss_genius_popup_if_present\<close>,
  \<open>fallback_click\<close>) return nothing the loader reads, so each call is one event of the
  trace. The last two catch every exception themselves; the two scrolling helpers do not,
  and an exception of their \<open>page.evaluate\<close> leaves the loader.
\<close>

datatype action =
    FullScrollBottom nat nat
  | HumanLikeScroll nat nat nat
  | DismissGeniusPopup nat
  | Sleep nat
  | LoadMoreClick
  | FallbackClick

text \<open>
  What the page does in one pass of the loop: the outcome of the scroll to the bottom and
  of the stepped scroll, of the first wait for the "Load more results" button, of the
  scroll and the second wait (after the popup is dismissed), of \<open>hotel_cards.count()\<close>, of
  the click on the button, and of the wait for the number of cards to grow.
\<close>

record round_env =
  scroll_bottom1 :: "error + unit"
  human_scroll :: "error + unit"
  wait_visible1 :: "error + unit"
  scroll_bottom2 :: "error + unit"
  wait_visible2 :: "error + unit"
  current_count :: "error + nat"
  click_load_more :: "error + unit"
  wait_more_cards :: "error + unit"

record loader_page =
  round_at :: "nat \<Rightarrow> round_env"
  final_scroll :: "error + unit"
  final_card_count :: "error + nat"

text \<open>
  How one pass of the \<open>while\<close> body ends: at \<open>break\<close>, at the end of the body or a
  \<open>continue\<close> (with the new value of \<open>clicks\<close>), or with an exception no handler of the
  body catches (the handlers around the waits catch \<open>TimeoutError\<close> only).
\<close>

datatype iteration = Break "action list" | Continue nat "action list" | Raise error

definition stepE :: "error + unit \<Rightarrow> iteration \<Rightarrow> iteration" where
  \<comment> \<open>a call whose exception nothing catches, and what follows it\<close>
  "stepE call rest = (case call of Inl e \<Rightarrow> Raise e | Inr u \<Rightarrow> rest)"

definition after_button :: "round_env \<Rightarrow> nat \<Rightarrow> nat \<Rightarrow> action list \<Rightarrow> iteration" where
  \<comment> \<open>the body from \<open>hotel_cards = page.locator(...)\<close> on\<close>
  "after_button r min_count clicks tr =
     (case current_count r of
        Inl e \<Rightarrow> Raise e
      | Inr count \<Rightarrow>
          if count \<ge> min_count then Break tr
          else (case click_load_more r of
                  Inl e \<Rightarrow> Continue (clicks + 1) (tr @ [FallbackClick])
                | Inr u \<Rightarrow>
                    (let clicks' = clicks + 1 in
                     case wait_more_cards r of
                       Inr u' \<Rightarrow> Continue clicks' (tr @ [LoadMoreClick])
                     | Inl e \<Rightarrow>
                         if e = TimeoutError then Continue (clicks' + 1) (tr @ [LoadMoreClick])
                         else Raise e)))"

definition load_round :: "round_env \<Rightarrow> nat \<Rightarrow> nat \<Rightarrow> iteration" where
  "load_round r min_count clicks =
     stepE (scroll_bottom1 r)
    (stepE (human_scroll r)
     (let tr1 = [FullScrollBottom 3 2, HumanLikeScroll 1000 100 500] in
      case wait_visible1 r of
        Inr u \<Rightarrow> after_button r min_count clicks tr1
      | Inl e \<Rightarrow>
          if e = TimeoutError then
            (let tr2 = tr1 @ [DismissGeniusPopup 3, Sleep 2, FullScrollBottom 3 2] in
             stepE (scroll_bottom2 r)
               (case wait_visible2 r of
                  Inr u \<Rightarrow> after_button r min_count clicks tr2
                | Inl e' \<Rightarrow> if e' = TimeoutError then Continue (clicks + 1) tr2 else Raise e'))
          else Raise e))"

text \<open>
  The loop \<open>while clicks < max_clicks\<close>. It returns the number of passes made, the final
  \<open>clicks\<close> and the trace.
\<close>

function load_loop ::
  "(nat \<Rightarrow> round_env) \<Rightarrow> nat \<Rightarrow> nat \<Rightarrow> nat \<Rightarrow> nat \<Rightarrow> action list \<Rightarrow> error + (nat \<times> nat \<times> action list)" where
  "load_loop page min_count max_clicks k clicks tr =
     (if clicks < max_clicks then
        (case load_round (page k) min_count clicks of
           Break tr' \<Rightarrow> Inr (k + 1, clicks, tr @ tr')
         | Continue clicks' tr' \<Rightarrow> load_loop page min_count max_clicks (k + 1) clicks' (tr @ tr')
         | Raise e \<Rightarrow> Inl e)
      else Inr (k, clicks, tr))"
  by pat_completeness auto
termination
  by (relation "measure (\<lambda>(p, mn, mx, r, c, t). mx - c)")
     (auto simp: load_round_def after_button_def stepE_def Let_def split: sum.splits if_splits)

declare load_loop.simps [simp del]

record loader_result =
  loader_returned :: pyval
  final_count :: nat
  rounds :: nat
  clicks_counted :: nat
  trace :: "action list"

definition load_hotel_cards :: "loader_page \<Rightarrow> nat \<Rightarrow> nat \<Rightarrow> error + loader_result" where
  "load_hotel_cards page min_count max_clicks =
     bindE (load_loop (round_at page) min_count max_clicks 0 0 []) (\<lambda>(n, clicks, tr).
       bindE (final_scroll page) (\<lambda>u.
       bindE (final_card_count page) (\<lambda>final.
         Inr \<lparr>loader_returned = PLocator PropertyCards, final_count = final, rounds = n,
              clicks_counted = clicks, trace = tr @ [FullScrollBottom 2 2, Sleep 2]\<rparr>)))"

section \<open>Task executor\<close>

subsection \<open>\<open>ensure_date_visible\<close>\<close>

text \<open>
  The calendar of the date picker: what \<open>is_visible()\<close> answers for the checkbox of the
  wanted date after \<open>k\<close> passes of the loop, and the outcome of the \<open>k\<close>-th click on
  "Next month". The test of the loop is outside any handler, so an exception of
  \<open>is_visible()\<close> leaves the function; an exception of the click is caught. The result is
  the number of passes made and whether the warning is printed.
\<close>

record calendar =
  date_visible :: "nat \<Rightarrow> error + bool"
  next_month_click :: "nat \<Rightarrow> error + unit"

function ensure_date_visible_loop ::
  "calendar \<Rightarrow> nat \<Rightarrow> nat \<Rightarrow> action list \<Rightarrow> error + nat \<times> action list" where
  "ensure_date_visible_loop cal max_attempts attempts tr =
     (case date_visible cal attempts of
        Inl e \<Rightarrow> Inl e
      | Inr visible \<Rightarrow>
          if \<not> visible \<and> attempts < max_attempts then
            ensure_date_visible_loop cal max_attempts (attempts + 1)
              (tr @ (case next_month_click cal attempts of
                       Inr u \<Rightarrow> [Sleep 1]
                     | Inl e \<Rightarrow> [FallbackClick]))
          else Inr (attempts, tr))"
  by pat_completeness auto
termination
  by (relation "measure (\<lambda>(c, m, a, t). m - a)") auto

declare ensure_date_visible_loop.simps [simp del]

definition ensure_date_visible :: "calendar \<Rightarrow> nat \<Rightarrow> error + nat \<times> bool" where
  "ensure_date_visible cal max_attempts =
     bindE (ensure_date_visible_loop cal max_attempts 0 []) (\<lambda>(attempts, tr).
       Inr (attempts, attempts = max_attempts))"

subsection \<open>One attempt: \<open>scrape_date_combination_sync\<close>\<close>

text \<open>
  One browser session: the outcome of each call the attempt makes on it, in the order of
  the source. A call that raises ends the attempt with that exception: the function has no
  handler of its own.
\<close>

record session =
  launch :: "error + unit"
  goto_base :: "error + unit"
  destination_click :: "error + unit"
  destination_fill :: "error + unit"
  suggestion_click :: "error + unit"
  checkin_calendar :: calendar
  checkin_click :: "error + unit"
  checkout_calendar :: calendar
  checkout_click :: "error + unit"
  search_click :: "error + unit"
  results_page :: loader_page
  page_cards :: "error + card list"
  context_close :: "error + unit"
  browser_close :: "error + unit"

definition scrape_date_combination_sync ::
  "(date \<Rightarrow> string) \<Rightarrow> session \<Rightarrow> date \<Rightarrow> date \<Rightarrow> error + pydict list" where
  \<comment> \<open>\<open>strftime\<close> is \<open>d.strftime("%-d %B %Y")\<close>\<close>
  "scrape_date_combination_sync strftime s checkin checkout =
     bindE (launch s) (\<lambda>u.
     bindE (goto_base s) (\<lambda>u.
     bindE (destination_click s) (\<lambda>u.
     bindE (destination_fill s) (\<lambda>u.
     bindE (suggestion_click s) (\<lambda>u.
       let checkin_str = strftime checkin;
           checkout_str = strftime checkout
       in
     bindE (ensure_date_visible (checkin_calendar s) 12) (\<lambda>v1.
     bindE (checkin_click s) (\<lambda>u.
     bindE (ensure_date_visible (checkout_calendar s) 12) (\<lambda>v2.
     bindE (checkout_click s) (\<lambda>u.
     bindE (search_click s) (\<lambda>u.
     bindE (load_hotel_cards (results_page s) 100 5) (\<lambda>loaded.
     bindE (extract_hotel_data (page_cards s)) (\<lambda>hotels.
       let hotels' = map (\<lambda>hotel. dict_set ''checkout'' (PStr checkout_str)
                                     (dict_set ''checkin'' (PStr checkin_str) hotel)) hotels
       in
     bindE (context_close s) (\<lambda>u.
     bindE (browser_close s) (\<lambda>u.
       Inr hotels'))))))))))))))"

subsection \<open>The retry wrapper: \<open>scrape_date_combination_sync_retry\<close>\<close>

text \<open>
  The loop \<open>while True\<close>. \<open>attempt n\<close> is what the \<open>n\<close>-th call of
  \<open>scrape_date_combination_sync\<close> does. The loop has no bound, so it is a partial
  function: \<open>None\<close> means that it never returns. A result carries the outcome (the hotels
  returned or the exception that left the loop), the number of attempts made and the
  seconds slept between attempts.
\<close>

partial_function (option) scrape_retry_loop ::
  "(nat \<Rightarrow> error + pydict list) \<Rightarrow> nat \<Rightarrow> nat \<Rightarrow> ((error + pydict list) \<times> nat \<times> nat) option" where
  "scrape_retry_loop attempt n slept =
     (case attempt n of
        Inl e \<Rightarrow> Some (Inl e, n + 1, slept)
      | Inr hotels \<Rightarrow>
          if length hotels \<ge> 100 then Some (Inr hotels, n + 1, slept)
          else scrape_retry_loop attempt (n + 1) (slept + 2))"

text \<open>
  The world a run lives in: the clock, the two date formats, the session each attempt of
  each task opens (a new one per attempt), and the time at which the worker of each task
  takes the lock of the output file (workers that tie take it in task order).
\<close>

record world =
  clock_today :: date
  clock_run_date :: string
  format_date :: "date \<Rightarrow> string"
  session_of :: "date \<times> date \<Rightarrow> nat \<Rightarrow> session"
  lock_time :: "date \<times> date \<Rightarrow> nat"

definition attempt_of :: "world \<Rightarrow> date \<times> date \<Rightarrow> nat \<Rightarrow> error + pydict list" where
  "attempt_of w task n =
     scrape_date_combination_sync (format_date w) (session_of w task n) (fst task) (snd task)"

definition scrape_date_combination_sync_retry ::
  "world \<Rightarrow> date \<times> date \<Rightarrow> ((error + pydict list) \<times> nat \<times> nat) option" where
  "scrape_date_combination_sync_retry w task = scrape_retry_loop (attempt_of w task) 0 0"

section \<open>Result sink: \<open>write_to_csv\<close>\<close>

text \<open>
  A CSV file is its lines: a header line of column names or a row of cells (\<open>None\<close> for a
  cell the record has no value for). The file system maps a name to the file's lines.
  \<open>pd.DataFrame(data)\<close> takes as columns the keys of the records in order of first
  appearance.
\<close>

datatype csv_line = Header "string list" | Row "pyval option list"

type_synonym fs = "string \<Rightarrow> csv_line list option"

fun add_keys :: "string list \<Rightarrow> string list \<Rightarrow> string list" where
  "add_keys cols [] = cols"
| "add_keys cols (k # ks) = add_keys (if k \<in> set cols then cols else cols @ [k]) ks"

record dataframe =
  columns :: "string list"
  frame_rows :: "pyval option list list"

definition DataFrame :: "pydict list \<Rightarrow> dataframe" where
  "DataFrame data =
     (let cols = foldl add_keys [] (map keys data)
      in \<lparr>columns = cols, frame_rows = map (\<lambda>d. map (map_of d) cols) data\<rparr>)"

definition write_to_csv :: "pydict list \<Rightarrow> string \<Rightarrow> fs \<Rightarrow> fs" where
  \<comment> \<open>the body runs under the lock, so it is one step on the file system\<close>
  "write_to_csv data csv_filename files =
     (let df = DataFrame data in
      case files csv_filename of
        None \<Rightarrow> files(csv_filename \<mapsto> Header (columns df) # map Row (frame_rows df))
      | Some old \<Rightarrow> files(csv_filename \<mapsto> old @ map Row (frame_rows df)))"

definition is_header :: "csv_line \<Rightarrow> bool" where
  "is_header l = (case l of Header cols \<Rightarrow> True | Row cells \<Rightarrow> False)"

section \<open>Worker pool dispatcher\<close>

text \<open>
  A worker returns the number of hotels and, as its effect, the write it makes on the file
  system at the moment it holds the lock.
\<close>

definition worker :: "world \<Rightarrow> date \<times> date \<times> string \<Rightarrow> (error + nat \<times> (fs \<Rightarrow> fs)) option" where
  "worker w args =
     (case args of (checkin, checkout, csv_filename) \<Rightarrow>
        (case scrape_date_combination_sync_retry w (checkin, checkout) of
           None \<Rightarrow> None
         | Some (Inl e, n, slept) \<Rightarrow> Some (Inl e)
         | Some (Inr hotels, n, slept) \<Rightarrow>
             Some (Inr (length hotels, write_to_csv hotels csv_filename))))"

text \<open>
  \<open>Pool.map\<close> of the standard library: the arguments are cut into chunks of
  \<open>ceil(len / (4 * processes))\<close>; a chunk is run in order by one process and stops at the
  first exception; the call returns once every chunk is done, with the results in the
  order of the arguments, or raises an exception of a chunk (the first in the order of
  completion; the model takes the first in the order of the arguments).
\<close>

function chunks :: "nat \<Rightarrow> 'a list \<Rightarrow> 'a list list" where
  "chunks sz xs = (if sz = 0 \<or> xs = [] then [] else take sz xs # chunks sz (drop sz xs))"
  by pat_completeness auto
termination
  by (relation "measure (\<lambda>(sz, xs). length xs)") auto

declare chunks.simps [simp del]

fun mapstar :: "('a \<Rightarrow> (error + 'b) option) \<Rightarrow> 'a list \<Rightarrow> (error + 'b list) option" where
  "mapstar f [] = Some (Inr [])"
| "mapstar f (x # xs) =
     (case f x of
        None \<Rightarrow> None
      | Some (Inl e) \<Rightarrow> Some (Inl e)
      | Some (Inr y) \<Rightarrow>
          (case mapstar f xs of
             None \<Rightarrow> None
           | Some (Inl e) \<Rightarrow> Some (Inl e)
           | Some (Inr ys) \<Rightarrow> Some (Inr (y # ys))))"

definition gather :: "(error + 'b list) option list \<Rightarrow> (error + 'b list) option" where
  "gather results =
     (if None \<in> set results then None
      else Some (case [e. Some (Inl e) \<leftarrow> results] of
                   e # es \<Rightarrow> Inl e
                 | [] \<Rightarrow> Inr (concat [ys. Some (Inr ys) \<leftarrow> results])))"

definition chunksize_of :: "nat \<Rightarrow> nat \<Rightarrow> nat" where
  "chunksize_of processes n =
     (if n = 0 then 0 else n div (processes * 4) + (if n mod (processes * 4) \<noteq> 0 then 1 else 0))"

definition pool_map :: "nat \<Rightarrow> ('a \<Rightarrow> (error + 'b) option) \<Rightarrow> 'a list \<Rightarrow> (error + 'b list) option" where
  "pool_map processes f iterable =
     gather (map (mapstar f) (chunks (chunksize_of processes (length iterable)) iterable))"

record run_result =
  run_returned :: pyval
  printed_total :: nat
  all_counts :: "nat list"
  files_after :: fs

definition csv_name :: "world \<Rightarrow> string" where
  "csv_name w = ''booking_com_'' @ clock_run_date w @ ''.csv''"

definition scrape_all_dates_sync ::
  "world \<Rightarrow> int \<Rightarrow> int \<Rightarrow> date option \<Rightarrow> date option \<Rightarrow> fs \<Rightarrow> (error + run_result) option" where
  "scrape_all_dates_sync w ttt los start_date end_date files =
     (case get_dates (clock_today w) start_date end_date los of
        Inl e \<Rightarrow> Some (Inl e)
      | Inr dates \<Rightarrow>
          (let csv_filename = csv_name w;
               files1 = (if files csv_filename \<noteq> None then files(csv_filename := None) else files);
               args_list = map (\<lambda>(checkin, checkout). (checkin, checkout, csv_filename)) dates
           in case pool_map 24 (worker w) args_list of
                None \<Rightarrow> None
              | Some (Inl e) \<Rightarrow> Some (Inl e)
              | Some (Inr results) \<Rightarrow>
                  (let counts = map fst results;
                       writes = map snd results;
                       total = sum_list counts
                   in Some (Inr \<lparr>run_returned = PStr csv_filename,
                                 printed_total = total,
                                 all_counts = counts,
                                 files_after =
                                   foldl (\<lambda>f write. write f) files1
                                     (map snd (sort_key (\<lambda>p. lock_time w (fst p))
                                                 (zip dates writes)))\<rparr>))))"

text \<open>
  \<open>len(pd.read_csv(name))\<close>: blank lines (a line of no column or of no cell) are skipped;
  of the lines that remain the first is the header and the others are the records.
\<close>

definition is_blank :: "csv_line \<Rightarrow> bool" where
  "is_blank l = (case l of Header cols \<Rightarrow> cols = [] | Row cells \<Rightarrow> cells = [])"

definition read_csv_len :: "fs \<Rightarrow> string \<Rightarrow> error + nat" where
  "read_csv_len files name =
     (case files name of
        None \<Rightarrow> Inl FileNotFoundError
      | Some ls \<Rightarrow>
          (case filter (\<lambda>l. \<not> is_blank l) ls of
             [] \<Rightarrow> Inl EmptyDataError
           | first # rest \<Rightarrow> Inr (length rest)))"

text \<open>
  \<open>main\<close>, with \<open>TTT = 30\<close> and \<open>LOS = 5\<close>: the run, and the number of records it reads back
  from the file and prints.
\<close>

definition main :: "world \<Rightarrow> fs \<Rightarrow> (error + run_result \<times> nat) option" where
  "main w files =
     (case scrape_all_dates_sync w 30 5 None None files of
        None \<Rightarrow> None
      | Some (Inl e) \<Rightarrow> Some (Inl e)
      | Some (Inr r) \<Rightarrow>
          (case run_returned r of
             PStr csv_filename \<Rightarrow>
               Some (bindE (read_csv_len (files_after r) csv_filename) (\<lambda>n. Inr (r, n)))
           | _ \<Rightarrow> Some (Inl TypeError)))"

section \<open>Notions used in the statements\<close>

text \<open>The keys of \<open>hotel_dict\<close>, and those of a record once the attempt has stamped it.\<close>

definition hotel_fields :: "string list" where
  "hotel_fields =
     [''hotel_name'', ''star_rating'', ''rating_score'', ''location_score'', ''review_amount'',
      ''bed_info'', ''price'', ''breakfast_included'', ''free_cancellation'',
      ''no_prepayment_needed'', ''centrally_located'', ''sustainability_certification'',
      ''distance_from_downtown'']"

definition record_fields :: "string list" where
  "record_fields = hotel_fields @ [''checkin'', ''checkout'']"



text \<open>
  A pass of the loader in which no call raises anything but the timeouts the loop handles,
  and a page all of whose passes are so.
\<close>

definition scrolls_ok :: "round_env \<Rightarrow> bool" where
  "scrolls_ok r \<longleftrightarrow> scroll_bottom1 r = Inr () \<and> human_scroll r = Inr () \<and> scroll_bottom2 r = Inr ()"

text \<open>
  A pass that reaches the count and finds at least \<open>mn\<close> cards; and a pass of one of the
  three kinds that go on after one more unit of the budget: the button never becomes
  visible, the click fails, or the click succeeds and the number of cards grows in time.
\<close>

definition button_seen :: "round_env \<Rightarrow> bool" where
  "button_seen r \<longleftrightarrow>
     wait_visible1 r = Inr () \<or> (wait_visible1 r = Inl TimeoutError \<and> wait_visible2 r = Inr ())"

definition pass_succeeds :: "round_env \<Rightarrow> nat \<Rightarrow> bool" where
  "pass_succeeds r mn \<longleftrightarrow>
     scrolls_ok r \<and> button_seen r \<and> (\<exists>n. current_count r = Inr n \<and> mn \<le> n)"

definition pass_costs_one :: "round_env \<Rightarrow> nat \<Rightarrow> bool" where
  "pass_costs_one r mn \<longleftrightarrow>
     scrolls_ok r \<and>
     ((wait_visible1 r = Inl TimeoutError \<and> wait_visible2 r = Inl TimeoutError) \<or>
      (button_seen r \<and> (\<exists>n. current_count r = Inr n \<and> n < mn) \<and>
       (isl (click_load_more r) \<or> (click_load_more r = Inr () \<and> wait_more_cards r = Inr ()))))"

definition benign_round :: "round_env \<Rightarrow> bool" where
  "benign_round r \<longleftrightarrow>
     scroll_bottom1 r = Inr () \<and> human_scroll r = Inr () \<and> scroll_bottom2 r = Inr () \<and>
     (wait_visible1 r = Inr () \<or> wait_visible1 r = Inl TimeoutError) \<and>
     (wait_visible2 r = Inr () \<or> wait_visible2 r = Inl TimeoutError) \<and>
     \<not> isl (current_count r) \<and>
     (wait_more_cards r = Inr () \<or> wait_more_cards r = Inl TimeoutError)"

definition benign_page :: "loader_page \<Rightarrow> bool" where
  "benign_page p \<longleftrightarrow>
     (\<forall>k. benign_round (round_at p k)) \<and> final_scroll p = Inr () \<and> \<not> isl (final_card_count p)"


text \<open>A sequence of appends of batches to one destination.\<close>

definition appends :: "pydict list list \<Rightarrow> string \<Rightarrow> fs \<Rightarrow> fs" where
  "appends batches csv_filename files = foldl (\<lambda>f data. write_to_csv data csv_filename f) files batches"

text \<open>The batch a task's executor was accepted with (empty when it was not accepted).\<close>

definition accepted_batch :: "world \<Rightarrow> date \<times> date \<Rightarrow> pydict list" where
  "accepted_batch w task =
     (case scrape_date_combination_sync_retry w task of
        Some (Inr hotels, n, slept) \<Rightarrow> hotels
      | _ \<Rightarrow> [])"

text \<open>The number of distinct check-in dates of a list of tasks.\<close>

definition checkin_days :: "(date \<times> date) list \<Rightarrow> nat" where
  "checkin_days tasks = card (fst ` set tasks)"

section \<open>Example inputs\<close>

definition failing_card :: card where
  "failing_card =
     \<lparr>title_text = Inl TimeoutError, star_label = Inl TimeoutError,
      review_score_text = Inl TimeoutError, loc_score_label = Inl TimeoutError,
      review_amount_text = Inl TimeoutError, bed_text = Inl TimeoutError,
      price_text = Inl TimeoutError, breakfast_visible = Inl (PlaywrightError ''detached''),
      free_cancellation_visible = Inl (PlaywrightError ''detached''),
      no_prepayment_visible = Inl (PlaywrightError ''detached''),
      card_inner_text = Inl TimeoutError,
      sustainability_visible = Inl (PlaywrightError ''detached''),
      distance_text = Inl TimeoutError\<rparr>"

definition sample_card :: card where
  "sample_card =
     \<lparr>title_text = Inr '' Hotel Aurora '', star_label = Inr (Some ''4 out of 5''),
      review_score_text = Inr ''Scored 8.7 Fabulous'', loc_score_label = Inr (Some ''Scored 8.3''),
      review_amount_text = Inr ''1,234 reviews'', bed_text = Inr ''1 queen bed'',
      price_text = Inr ''$1,020'', breakfast_visible = Inr True,
      free_cancellation_visible = Inr False, no_prepayment_visible = Inr False,
      card_inner_text = Inr ''Hotel Aurora Subway Access'',
      sustainability_visible = Inr False, distance_text = Inr ''0.5 miles from downtown''\<rparr>"

text \<open>
  A page on which the button is visible, the click succeeds and \<open>n\<close> cards are shown in
  every pass; \<open>grows\<close> tells whether the wait for more cards succeeds or times out.
\<close>

definition steady_round :: "nat \<Rightarrow> bool \<Rightarrow> round_env" where
  "steady_round n grows =
     \<lparr>scroll_bottom1 = Inr (), human_scroll = Inr (), wait_visible1 = Inr (),
      scroll_bottom2 = Inr (), wait_visible2 = Inr (), current_count = Inr n,
      click_load_more = Inr (), wait_more_cards = (if grows then Inr () else Inl TimeoutError)\<rparr>"

definition steady_page :: "nat \<Rightarrow> bool \<Rightarrow> loader_page" where
  "steady_page n grows =
     \<lparr>round_at = (\<lambda>k. steady_round n grows), final_scroll = Inr (), final_card_count = Inr n\<rparr>"

text \<open>A page that shows 50 cards in its first \<open>j\<close> passes and 100 cards from then on.\<close>

definition growing_page :: "nat \<Rightarrow> loader_page" where
  "growing_page j =
     \<lparr>round_at = (\<lambda>k. steady_round (if k < j then 50 else 100) True), final_scroll = Inr (),
      final_card_count = Inr 100\<rparr>"

definition open_calendar :: calendar where
  "open_calendar = \<lparr>date_visible = (\<lambda>k. Inr True), next_month_click = (\<lambda>k. Inr ())\<rparr>"

text \<open>A session in which every call succeeds and the page shows the given cards.\<close>

definition session_with :: "card list \<Rightarrow> session" where
  "session_with cards =
     \<lparr>launch = Inr (), goto_base = Inr (), destination_click = Inr (), destination_fill = Inr (),
      suggestion_click = Inr (), checkin_calendar = open_calendar, checkin_click = Inr (),
      checkout_calendar = open_calendar, checkout_click = Inr (), search_click = Inr (),
      results_page = steady_page (length cards) True, page_cards = Inr cards,
      context_close = Inr (), browser_close = Inr ()\<rparr>"

text \<open>A world whose clock shows 2024-01-01 (ordinal 738886).\<close>

definition january :: "date \<Rightarrow> string" where
  "january d = (if d = 738886 then ''1 January 2024''
                else if d = 738887 then ''2 January 2024''
                else if d = 738888 then ''3 January 2024'' else ''later'')"

definition world_with :: "(date \<times> date \<Rightarrow> nat \<Rightarrow> session) \<Rightarrow> world" where
  "world_with sessions =
     \<lparr>clock_today = 738886, clock_run_date = ''20240101'', format_date = january,
      session_of = sessions, lock_time = (\<lambda>t. 0)\<rparr>"

section \<open>Properties of the task partitioner\<close>

lemma get_dates_inner_ok:
  assumes "0 < d" and "\<forall>j\<in>set js. 0 \<le> j \<and> d + j \<le> MAXORDINAL"
  shows "get_dates_inner d js acc = Inr (acc @ map (\<lambda>j. (d, d + j)) js)"
  using assms
proof (induction js arbitrary: acc)
  case Nil
  then show ?case by simp
next
  case (Cons j js)
  have "MAXORDINAL \<le> 999999999" by (simp add: MAXORDINAL_def)
  with Cons.prems have "date_plus_days d j = Inr (d + j)"
    by (auto simp: date_plus_days_def timedelta_def date_add_def Let_def)
  with Cons show ?case by simp
qed

lemma get_dates_loop_ok:
  assumes "0 < c" and "1 \<le> los" and "e + los \<le> MAXORDINAL"
  shows "get_dates_loop c e los acc = Inr (acc @ tasks_of c e los)"
  using assms
proof (induction c e los acc rule: get_dates_loop.induct)
  case (1 c e los acc)
  show ?case
  proof (cases "c \<le> e")
    case False
    then show ?thesis by (subst get_dates_loop.simps) (simp add: tasks_of_def)
  next
    case True
    have inner: "get_dates_inner c [1..los] acc = Inr (acc @ map (\<lambda>j. (c, c + j)) [1..los])"
      using "1.prems" True by (intro get_dates_inner_ok) auto
    have nxt: "date_plus_days c 1 = Inr (c + 1)"
      using "1.prems" True
      by (auto simp: date_plus_days_def timedelta_def date_add_def Let_def)
    have rest: "get_dates_loop (c + 1) e los (acc @ map (\<lambda>j. (c, c + j)) [1..los])
                = Inr ((acc @ map (\<lambda>j. (c, c + j)) [1..los]) @ tasks_of (c + 1) e los)"
      using "1.IH"[OF True inner nxt] "1.prems" by simp
    have unfold: "tasks_of c e los = map (\<lambda>j. (c, c + j)) [1..los] @ tasks_of (c + 1) e los"
      using True by (simp add: tasks_of_def upto_rec1[of c e])
    show ?thesis
      using True inner nxt rest unfold by (subst get_dates_loop.simps) simp
  qed
qed

lemma get_dates_loop_empty: "e < c \<Longrightarrow> get_dates_loop c e los acc = Inr acc"
  by (subst get_dates_loop.simps) simp

lemma length_tasks_of: "length (tasks_of s e los) = nat (e - s + 1) * nat los"
  by (simp add: tasks_of_def length_concat comp_def sum_list_triv)

lemma set_tasks_of: "p \<in> set (tasks_of s e los) \<Longrightarrow> 1 \<le> snd p - fst p \<and> snd p - fst p \<le> los \<and> s \<le> fst p \<and> fst p \<le> e"
  by (auto simp: tasks_of_def)

lemma sorted_tasks_aux:
  assumes "sorted_wrt (<) ds"
  shows "sorted_wrt task_before (concat (map (\<lambda>d. map (\<lambda>j. (d, d + j)) [1..los]) ds))"
  using assms
proof (induction ds)
  case Nil
  then show ?case by simp
next
  case (Cons d ds)
  have one: "sorted_wrt task_before (map (\<lambda>j. (d, d + j)) [1..los])"
    by (simp add: sorted_wrt_map task_before_def)
  have cross: "\<forall>p\<in>set (map (\<lambda>j. (d, d + j)) [1..los]).
                 \<forall>q\<in>set (concat (map (\<lambda>d. map (\<lambda>j. (d, d + j)) [1..los]) ds)). task_before p q"
    using Cons.prems by (auto simp: task_before_def)
  from Cons one cross show ?case
    by (simp add: sorted_wrt_append)
qed

lemma sorted_tasks_of: "sorted_wrt task_before (tasks_of s e los)"
  unfolding tasks_of_def by (rule sorted_tasks_aux) simp

section \<open>The task partitioner's contract\<close>

text \<open>
  C2 (as amended). For dates \<open>s \<le> e\<close> and \<open>los \<ge> 1\<close> such that \<open>e + los\<close> days is still a
  date (not after 9999-12-31), \<open>get_dates\<close> returns exactly \<open>(e - s + 1) * los\<close> pairs, each
  with \<open>1 \<le> checkout - checkin \<le> los\<close>, ordered by check-in day ascending and then by
  stay length ascending (it is the list of \<open>(d, d + j)\<close> for \<open>d\<close> from \<open>s\<close> to \<open>e\<close> and \<open>j\<close>
  from 1 to \<open>los\<close>). When \<open>s > e\<close> it returns the empty list and does not raise.
\<close>

theorem get_dates_partition:
  "(valid_date s \<and> s \<le> e \<and> 1 \<le> los \<and> e + los \<le> MAXORDINAL \<longrightarrow>
      (\<exists>ps. get_dates today (Some s) (Some e) los = Inr ps \<and>
            int (length ps) = (e - s + 1) * los \<and>
            (\<forall>p\<in>set ps. 1 \<le> snd p - fst p \<and> snd p - fst p \<le> los) \<and>
            sorted_wrt task_before ps \<and>
            ps = tasks_of s e los)) \<and>
   (e < s \<longrightarrow> get_dates today (Some s) (Some e) los = Inr [])"
proof (intro conjI impI)
  assume h: "valid_date s \<and> s \<le> e \<and> 1 \<le> los \<and> e + los \<le> MAXORDINAL"
  then have run: "get_dates today (Some s) (Some e) los = Inr (tasks_of s e los)"
    using get_dates_loop_ok[of s los e "[]"] by (simp add: get_dates_def valid_date_def)
  have len: "int (length (tasks_of s e los)) = (e - s + 1) * los"
    using h by (simp add: length_tasks_of)
  have rng: "\<forall>p\<in>set (tasks_of s e los). 1 \<le> snd p - fst p \<and> snd p - fst p \<le> los"
    using set_tasks_of by blast
  show "\<exists>ps. get_dates today (Some s) (Some e) los = Inr ps \<and>
            int (length ps) = (e - s + 1) * los \<and>
            (\<forall>p\<in>set ps. 1 \<le> snd p - fst p \<and> snd p - fst p \<le> los) \<and>
            sorted_wrt task_before ps \<and>
            ps = tasks_of s e los"
    using run len rng sorted_tasks_of by blast
next
  assume "e < s"
  then show "get_dates today (Some s) (Some e) los = Inr []"
    by (simp add: get_dates_def get_dates_loop_empty)
qed

text \<open>
  The scenario of 2024-01-01 (ordinal 738886) with \<open>los = 2\<close>: two tasks; and an empty range.
\<close>

theorem get_dates_partition_witness:
  "get_dates 738886 (Some 738886) (Some 738886) 2 = Inr [(738886, 738887), (738886, 738888)] \<and>
   get_dates 738886 (Some 738887) (Some 738886) 2 = Inr []"
  using get_dates_partition[where s = 738886 and e = 738886 and los = 2 and today = 738886]
        get_dates_partition[where s = 738887 and e = 738886 and los = 2 and today = 738886]
  by (simp add: valid_date_def MAXORDINAL_def tasks_of_def upto.simps)

text \<open>
  Without the bound this fails: for \<open>start = end = date.max\<close> and \<open>los = 1\<close> the check-out
  date does not exist and \<open>get_dates\<close> raises \<open>OverflowError\<close>.
\<close>

theorem get_dates_overflow_counterexample:
  "valid_date 3652059 \<and> (3652059::int) \<le> 3652059 \<and> (1::int) \<le> 1 \<and>
   get_dates 738886 (Some 3652059) (Some 3652059) 1 = Inl OverflowError"
  by (simp add: valid_date_def MAXORDINAL_def get_dates_def get_dates_loop.simps upto.simps
        date_plus_days_def timedelta_def date_add_def)

section \<open>The retry loop\<close>

lemma retry_accept:
  "attempt n = Inr hs \<Longrightarrow> 100 \<le> length hs \<Longrightarrow> scrape_retry_loop attempt n s = Some (Inr hs, n + 1, s)"
  by (subst scrape_retry_loop.simps) simp


lemma retry_low:
  "attempt n = Inr hs \<Longrightarrow> length hs < 100 \<Longrightarrow>
   scrape_retry_loop attempt n s = scrape_retry_loop attempt (n + 1) (s + 2)"
  by (subst scrape_retry_loop.simps) simp

lemma retry_skip:
  "(\<forall>i<k. \<exists>hs. attempt (n + i) = Inr hs \<and> length hs < 100) \<Longrightarrow>
   scrape_retry_loop attempt n s = scrape_retry_loop attempt (n + k) (s + 2 * k)"
proof (induction k arbitrary: n s)
  case 0
  then show ?case by simp
next
  case (Suc k)
  from Suc.prems have "\<exists>hs. attempt (n + 0) = Inr hs \<and> length hs < 100" by blast
  then obtain hs where h: "attempt n = Inr hs" "length hs < 100" by auto
  have "\<exists>hs. attempt (n + 1 + i) = Inr hs \<and> length hs < 100" if "i < k" for i
  proof -
    from that have "Suc i < Suc k" by simp
    with Suc.prems have "\<exists>hs. attempt (n + Suc i) = Inr hs \<and> length hs < 100" by blast
    then show ?thesis by simp
  qed
  then have "scrape_retry_loop attempt (n + 1) (s + 2) = scrape_retry_loop attempt (n + 1 + k) (s + 2 + 2 * k)"
    by (intro Suc.IH) blast
  with retry_low[of attempt n hs s] h show ?case by (simp add: add.commute add.left_commute)
qed

lemma retry_sound:
  assumes "scrape_retry_loop attempt n s = Some r"
  shows "\<exists>k. fst (snd r) = n + k + 1 \<and> snd (snd r) = s + 2 * k \<and> fst r = attempt (n + k) \<and>
        (\<forall>i<k. \<exists>hs. attempt (n + i) = Inr hs \<and> length hs < 100) \<and>
        (\<forall>hs. fst r = Inr hs \<longrightarrow> 100 \<le> length hs)"
proof (rule scrape_retry_loop.raw_induct[where P = "\<lambda>attempt n s r.
        \<exists>k. fst (snd r) = n + k + 1 \<and> snd (snd r) = s + 2 * k \<and> fst r = attempt (n + k) \<and>
        (\<forall>i<k. \<exists>hs. attempt (n + i) = Inr hs \<and> length hs < 100) \<and>
        (\<forall>hs. fst r = Inr hs \<longrightarrow> 100 \<le> length hs)", OF _ assms])
  fix f :: "(nat \<Rightarrow> error + pydict list) \<Rightarrow> nat \<Rightarrow> nat \<Rightarrow> ((error + pydict list) \<times> nat \<times> nat) option"
  fix attempt n s r
  assume IH: "\<And>a n s r. f a n s = Some r \<Longrightarrow>
        \<exists>k. fst (snd r) = n + k + 1 \<and> snd (snd r) = s + 2 * k \<and> fst r = a (n + k) \<and>
        (\<forall>i<k. \<exists>hs. a (n + i) = Inr hs \<and> length hs < 100) \<and>
        (\<forall>hs. fst r = Inr hs \<longrightarrow> 100 \<le> length hs)"
  assume eq: "(case attempt n of
        Inl e \<Rightarrow> Some (Inl e, n + 1, s)
      | Inr hotels \<Rightarrow>
          if length hotels \<ge> 100 then Some (Inr hotels, n + 1, s)
          else f attempt (n + 1) (s + 2)) = Some r"
  show "\<exists>k. fst (snd r) = n + k + 1 \<and> snd (snd r) = s + 2 * k \<and> fst r = attempt (n + k) \<and>
        (\<forall>i<k. \<exists>hs. attempt (n + i) = Inr hs \<and> length hs < 100) \<and>
        (\<forall>hs. fst r = Inr hs \<longrightarrow> 100 \<le> length hs)" (is ?thesis)
  proof (cases "attempt n")
    case (Inl e)
    with eq show ?thesis by (intro exI[of _ 0]) auto
  next
    case (Inr hs)
    show ?thesis
    proof (cases "100 \<le> length hs")
      case True
      with eq Inr show ?thesis by (intro exI[of _ 0]) auto
    next
      case False
      with eq Inr have "f attempt (n + 1) (s + 2) = Some r" by simp
      from IH[OF this] obtain k where k:
        "fst (snd r) = n + 1 + k + 1" "snd (snd r) = s + 2 + 2 * k" "fst r = attempt (n + 1 + k)"
        "\<forall>i<k. \<exists>hs. attempt (n + 1 + i) = Inr hs \<and> length hs < 100"
        "\<forall>hs. fst r = Inr hs \<longrightarrow> 100 \<le> length hs" by blast
      have low: "\<exists>hs. attempt (n + i) = Inr hs \<and> length hs < 100" if "i < Suc k" for i
      proof (cases i)
        case 0
        with Inr False show ?thesis by simp
      next
        case (Suc j)
        with that have "j < k" by simp
        with k(4) have "\<exists>hs. attempt (n + 1 + j) = Inr hs \<and> length hs < 100" by blast
        with Suc show ?thesis by simp
      qed
      show ?thesis
        using k low by (intro exI[of _ "Suc k"]) simp
    qed
  qed
qed

lemma retry_never:
  assumes "\<forall>i. \<exists>hs. attempt i = Inr hs \<and> length hs < 100"
  shows "scrape_retry_loop attempt n s = None"
proof (rule ccontr)
  assume "scrape_retry_loop attempt n s \<noteq> None"
  then obtain r where "scrape_retry_loop attempt n s = Some r" by blast
  from retry_sound[OF this] obtain k where
    "fst r = attempt (n + k)" "\<forall>hs. fst r = Inr hs \<longrightarrow> 100 \<le> length hs" by blast
  with assms show False by (metis not_le)
qed


section \<open>The extractor, the loader and one attempt\<close>

lemma extract_loop_eq:
  "extract_loop cards idx acc = acc @ map (\<lambda>i. extract_card (cards ! i)) idx"
  by (induction idx arbitrary: acc) auto

lemma map_nth_take: "map (\<lambda>i. f (xs ! i)) [0..<min (length xs) n] = map f (take n xs)"
  by (rule nth_equalityI) auto

lemma extract_hotel_data_Inr:
  "extract_hotel_data (Inr cards) = Inr (map extract_card (take 100 cards))"
  by (simp add: extract_hotel_data_def bindE_def extract_loop_eq map_nth_take)

lemma extract_hotel_data_Inl: "extract_hotel_data (Inl e) = Inl e"
  by (simp add: extract_hotel_data_def bindE_def)

lemma keys_extract_card: "keys (extract_card c) = hotel_fields"
  by (simp add: extract_card_def keys_def hotel_fields_def)

lemma keys_stamped:
  "keys (dict_set ''checkout'' v (dict_set ''checkin'' u (extract_card c))) = record_fields"
  by (simp add: extract_card_def keys_def hotel_fields_def record_fields_def)

lemma load_loop_benign:
  assumes "\<forall>k. benign_round (page k)"
  shows "\<exists>r. load_loop page mn mx k c tr = Inr r"
  using assms
proof (induction page mn mx k c tr rule: load_loop.induct)
  case (1 page mn mx k c tr)
  show ?case
  proof (cases "c < mx")
    case False
    then show ?thesis by (subst load_loop.simps) simp
  next
    case True
    have b: "benign_round (page k)" using "1.prems" by blast
    show ?thesis
    proof (cases "load_round (page k) mn c")
      case (Break tr')
      with True show ?thesis by (subst load_loop.simps) simp
    next
      case (Continue c' tr')
      from "1.IH"[OF True Continue "1.prems"] Continue True show ?thesis
        by (subst load_loop.simps) simp
    next
      case (Raise e)
      with b have False
        by (auto simp: load_round_def after_button_def stepE_def benign_round_def Let_def
                 split: sum.splits if_splits)
      then show ?thesis ..
    qed
  qed
qed

lemma load_hotel_cards_benign:
  assumes "benign_page p"
  shows "\<exists>r. load_hotel_cards p mn mx = Inr r"
proof -
  from assms have "\<forall>k. benign_round (round_at p k)" by (simp add: benign_page_def)
  from load_loop_benign[OF this] obtain r where r: "load_loop (round_at p) mn mx 0 0 [] = Inr r"
    by blast
  from assms obtain n where "final_card_count p = Inr n"
    by (cases "final_card_count p") (auto simp: benign_page_def)
  moreover from assms have "final_scroll p = Inr ()"
    by (simp add: benign_page_def)
  ultimately show ?thesis
    using r by (cases r) (simp add: load_hotel_cards_def bindE_def)
qed

lemma benign_steady_page: "benign_page (steady_page n g)"
  by (simp add: benign_page_def steady_page_def benign_round_def steady_round_def)







lemma ensure_open_calendar: "ensure_date_visible open_calendar m = Inr (0, 0 = m)"
  by (simp add: ensure_date_visible_def bindE_def ensure_date_visible_loop.simps open_calendar_def)

lemma scrape_Inr_form:
  assumes "scrape_date_combination_sync fmt s ci co = Inr hotels"
  shows "\<exists>cards. page_cards s = Inr cards \<and>
           hotels = map (\<lambda>h. dict_set ''checkout'' (PStr (fmt co)) (dict_set ''checkin'' (PStr (fmt ci)) h))
                        (map extract_card (take 100 cards))"
proof (cases "page_cards s")
  case (Inl e)
  with assms show ?thesis
    by (simp add: scrape_date_combination_sync_def bindE_def Let_def extract_hotel_data_Inl
             split: sum.splits)
next
  case (Inr cards)
  with assms show ?thesis
    by (simp add: scrape_date_combination_sync_def bindE_def Let_def extract_hotel_data_Inr
             split: sum.splits)
qed

lemma scrape_session_with:
  "scrape_date_combination_sync fmt (session_with cards) ci co =
     Inr (map (\<lambda>h. dict_set ''checkout'' (PStr (fmt co)) (dict_set ''checkin'' (PStr (fmt ci)) h))
              (map extract_card (take 100 cards)))"
proof -
  obtain r where "load_hotel_cards (steady_page (length cards) True) 100 5 = Inr r"
    using load_hotel_cards_benign[OF benign_steady_page] by blast
  then show ?thesis
    by (simp add: scrape_date_combination_sync_def session_with_def bindE_def Let_def
          extract_hotel_data_Inr ensure_open_calendar)
qed


section \<open>Columns of a batch\<close>

lemma add_keys_subset: "set ks \<subseteq> set cols \<Longrightarrow> add_keys cols ks = cols"
  by (induction ks arbitrary: cols) auto

lemma add_keys_fresh: "distinct ks \<Longrightarrow> set ks \<inter> set cols = {} \<Longrightarrow> add_keys cols ks = cols @ ks"
  by (induction ks arbitrary: cols) auto

lemma foldl_add_keys_same:
  "\<forall>ks\<in>set kss. ks = cols \<Longrightarrow> foldl add_keys cols kss = cols"
  by (induction kss) (auto simp: add_keys_subset)

lemma distinct_record_fields: "distinct record_fields"
  by (simp add: record_fields_def hotel_fields_def)

lemma columns_DataFrame:
  assumes "hotels \<noteq> []" and "\<forall>h\<in>set hotels. keys h = record_fields"
  shows "columns (DataFrame hotels) = record_fields"
proof -
  from assms(1) obtain h hs where hs: "hotels = h # hs" by (cases hotels) auto
  with assms(2) have first: "keys h = record_fields" and rest: "\<forall>ks\<in>set (map keys hs). ks = record_fields"
    by auto
  have "add_keys [] record_fields = record_fields"
    using add_keys_fresh[OF distinct_record_fields, of "[]"] by simp
  then show ?thesis
    using hs first foldl_add_keys_same[OF rest] by (simp add: DataFrame_def)
qed

lemma attempt_keys:
  assumes "scrape_date_combination_sync fmt s ci co = Inr hotels"
  shows "\<forall>h\<in>set hotels. keys h = record_fields"
proof -
  from scrape_Inr_form[OF assms] obtain cards where
    "hotels = map (\<lambda>h. dict_set ''checkout'' (PStr (fmt co)) (dict_set ''checkin'' (PStr (fmt ci)) h))
                  (map extract_card (take 100 cards))" by blast
  then show ?thesis by (auto simp: keys_stamped)
qed

section \<open>The retry wrapper's contract\<close>

text \<open>
  C1. For every task the retry wrapper accepts an attempt, and returns its records, if and
  only if the attempt yields at least 100 records. When the first \<open>k\<close> attempts each
  return fewer than 100 records and the next returns at least 100, the wrapper returns the
  records of that attempt, after \<open>k + 1\<close> attempts (each in its own session) and \<open>k\<close>
  pauses of 2 seconds: nothing of the discarded attempts is kept. The number of attempts
  has no bound: when every attempt returns fewer than 100 records the wrapper never
  returns. Conversely a returned batch has at least 100 records and is the result of the
  last attempt, every earlier attempt having returned fewer than 100.
\<close>

theorem retry_accepts_from_100:
  "((\<forall>i<k. \<exists>hs. attempt_of w task i = Inr hs \<and> length hs < 100) \<and>
    attempt_of w task k = Inr hotels \<and> 100 \<le> length hotels
      \<longrightarrow> scrape_date_combination_sync_retry w task = Some (Inr hotels, k + 1, 2 * k)) \<and>
   ((\<forall>i. \<exists>hs. attempt_of w task i = Inr hs \<and> length hs < 100)
      \<longrightarrow> scrape_date_combination_sync_retry w task = None) \<and>
   (scrape_date_combination_sync_retry w task = Some (Inr hotels, n, slept)
      \<longrightarrow> 100 \<le> length hotels \<and> 0 < n \<and> attempt_of w task (n - 1) = Inr hotels \<and>
          slept = 2 * (n - 1) \<and>
          (\<forall>i<n - 1. \<exists>hs. attempt_of w task i = Inr hs \<and> length hs < 100))"
proof -
  have accept: "scrape_date_combination_sync_retry w task = Some (Inr hotels, k + 1, 2 * k)"
    if h: "(\<forall>i<k. \<exists>hs. attempt_of w task i = Inr hs \<and> length hs < 100) \<and>
           attempt_of w task k = Inr hotels \<and> 100 \<le> length hotels"
  proof -
    from h have "scrape_retry_loop (attempt_of w task) 0 0 =
                 scrape_retry_loop (attempt_of w task) (0 + k) (0 + 2 * k)"
      by (intro retry_skip) simp
    also have "\<dots> = Some (Inr hotels, k + 1, 2 * k)"
      using h retry_accept[of "attempt_of w task" k hotels "2 * k"] by simp
    finally show ?thesis
      by (simp add: scrape_date_combination_sync_retry_def)
  qed
  have spin: "scrape_date_combination_sync_retry w task = None"
    if "\<forall>i. \<exists>hs. attempt_of w task i = Inr hs \<and> length hs < 100"
    using that by (simp add: scrape_date_combination_sync_retry_def retry_never)
  have only: "100 \<le> length hotels \<and> 0 < n \<and> attempt_of w task (n - 1) = Inr hotels \<and>
          slept = 2 * (n - 1) \<and>
          (\<forall>i<n - 1. \<exists>hs. attempt_of w task i = Inr hs \<and> length hs < 100)"
    if "scrape_date_combination_sync_retry w task = Some (Inr hotels, n, slept)"
  proof -
    from that have "scrape_retry_loop (attempt_of w task) 0 0 = Some (Inr hotels, n, slept)"
      by (simp add: scrape_date_combination_sync_retry_def)
    from retry_sound[OF this] obtain k where k:
      "n = k + 1" "slept = 2 * k" "Inr hotels = attempt_of w task k"
      "\<forall>i<k. \<exists>hs. attempt_of w task i = Inr hs \<and> length hs < 100"
      "100 \<le> length hotels" by auto
    then show ?thesis by simp
  qed
  from accept spin only show ?thesis by blast
qed

lemma attempt_world_with:
  "attempt_of (world_with (\<lambda>t k. session_with (cs k))) task k =
     Inr (map (\<lambda>h. dict_set ''checkout'' (PStr (january (snd task))) (dict_set ''checkin'' (PStr (january (fst task))) h))
              (map extract_card (take 100 (cs k))))"
  by (simp add: attempt_of_def world_with_def scrape_session_with)

text \<open>
  Two attempts of 99 cards and a third of 100: accepted at the third attempt after 4
  seconds of pauses. Attempts of 99 cards for ever: the wrapper never returns.
\<close>

theorem retry_accepts_from_100_witness:
  "map_option (\<lambda>r. (map_sum id length (fst r), snd r))
     (scrape_date_combination_sync_retry
        (world_with (\<lambda>t k. session_with (replicate (if k < 2 then 99 else 100) failing_card)))
        (738886, 738887)) = Some (Inr 100, 3, 4) \<and>
   scrape_date_combination_sync_retry
        (world_with (\<lambda>t k. session_with (replicate 99 failing_card))) (738886, 738887) = None"
proof -
  let ?w = "world_with (\<lambda>t k. session_with (replicate (if k < 2 then 99 else 100) failing_card))"
  let ?t = "(738886 :: int, 738887 :: int)"
  let ?st = "\<lambda>h. dict_set ''checkout'' (PStr (january (snd ?t))) (dict_set ''checkin'' (PStr (january (fst ?t))) h)"
  let ?hs = "map ?st (map extract_card (take 100 (replicate 100 failing_card)))"
  have low: "\<forall>i<2. \<exists>hs. attempt_of ?w ?t i = Inr hs \<and> length hs < 100"
    by (simp add: attempt_world_with[where cs = "\<lambda>k. replicate (if k < 2 then 99 else 100) failing_card"])
  have acc: "attempt_of ?w ?t 2 = Inr ?hs"
    by (simp add: attempt_world_with[where cs = "\<lambda>k. replicate (if k < 2 then 99 else 100) failing_card"])
  have len: "100 \<le> length ?hs" by simp
  have first: "scrape_date_combination_sync_retry ?w ?t = Some (Inr ?hs, 3, 4)"
    using retry_accepts_from_100[where w = ?w and task = ?t and k = 2 and hotels = ?hs] low acc len
    by simp
  have third: "100 \<le> length ?hs \<and> attempt_of ?w ?t (3 - 1) = Inr ?hs"
    using retry_accepts_from_100[where w = ?w and task = ?t and hotels = ?hs and n = 3 and slept = 4] first
    by simp
  let ?v = "world_with (\<lambda>t k. session_with (replicate 99 failing_card))"
  have never: "\<forall>i. \<exists>hs. attempt_of ?v ?t i = Inr hs \<and> length hs < 100"
    by (simp add: attempt_world_with[where cs = "\<lambda>k. replicate 99 failing_card"])
  have second: "scrape_date_combination_sync_retry ?v ?t = None"
    using retry_accepts_from_100[where w = ?v and task = ?t] never by blast
  from first second third show ?thesis by simp
qed

section \<open>The extractor's contract\<close>

































section \<open>Numeric parsing\<close>

text \<open>
  C8. Whatever the other lookups of a card answer, the review-count text
  \<open>"1,234 reviews"\<close> gives the integer 1234 (the digits that remain once every character
  that is not a digit is removed), and the location label \<open>"Scored 8.3"\<close> gives the number
  8.3 (the first decimal number that follows \<open>Scored\<close> and white space, also when another
  decimal number comes earlier in the text).
\<close>

theorem numeric_parsing_examples:
  "map_of (extract_card (c\<lparr>review_amount_text := Inr ''1,234 reviews''\<rparr>)) ''review_amount''
     = Some (PInt 1234) \<and>
   map_of (extract_card (c\<lparr>loc_score_label := Inr (Some ''Scored 8.3'')\<rparr>)) ''location_score''
     = Some (PFloat (83 / 10)) \<and>
   filter isdigit ''1,234 reviews'' = ''1234'' \<and>
   search_scored ''Scored 8.3'' = Some (''8'', ''3'') \<and>
   search_scored ''9.1, Scored  8.3 of 10.0'' = Some (''8'', ''3'')"
  by (simp add: extract_card_def extract_review_amount_def extract_location_score_def
        try_except_def bindE_def py_int_def strip_def isspace_def isdigit_def digits_val_def
        match_scored_at_def match_decimal_at_def py_float_def Let_def)

section \<open>The loader's budget\<close>

lemma load_round_Continue: "load_round r mn c = Continue c' t \<Longrightarrow> c < c' \<and> c' \<le> c + 2"
  by (auto simp: load_round_def after_button_def stepE_def Let_def split: sum.splits if_splits)

lemma load_round_Break: "load_round r mn c = Break t \<Longrightarrow> \<exists>n. current_count r = Inr n \<and> mn \<le> n"
  by (auto simp: load_round_def after_button_def stepE_def Let_def split: sum.splits if_splits)

lemma load_loop_inv:
  assumes "load_loop page mn mx k c tr = Inr (k', c', tr')" and "k \<le> c" and "k \<le> mx"
  shows "k' \<le> mx \<and> (\<exists>t. tr' = tr @ t) \<and>
         (mx \<le> c' \<or> (0 < k' \<and> (\<exists>n. current_count (page (k' - 1)) = Inr n \<and> mn \<le> n)))"
  using assms
proof (induction page mn mx k c tr rule: load_loop.induct)
  case (1 page mn mx k c tr)
  show ?case
  proof (cases "c < mx")
    case False
    with "1.prems" show ?thesis by (subst (asm) load_loop.simps) auto
  next
    case True
    show ?thesis
    proof (cases "load_round (page k) mn c")
      case (Break t)
      from load_round_Break[OF Break] obtain n where n: "current_count (page k) = Inr n" "mn \<le> n"
        by blast
      from "1.prems"(1) True Break have "k' = k + 1" "c' = c" "tr' = tr @ t"
        by (subst (asm) load_loop.simps; simp)+
      with n True "1.prems"(2) show ?thesis by auto
    next
      case (Continue c2 t)
      from load_round_Continue[OF Continue] have c2: "c < c2" by simp
      from "1.prems"(1) True Continue
      have rec: "load_loop page mn mx (k + 1) c2 (tr @ t) = Inr (k', c', tr')"
        by (subst (asm) load_loop.simps) simp
      have "k + 1 \<le> c2" "k + 1 \<le> mx" using c2 True "1.prems"(2) by simp_all
      from "1.IH"[OF True Continue rec this] show ?thesis by auto
    next
      case (Raise e)
      with "1.prems"(1) True show ?thesis by (subst (asm) load_loop.simps) simp
    qed
  qed
qed

lemma load_hotel_cards_Inr:
  assumes "load_hotel_cards p mn mx = Inr res"
  shows "rounds res \<le> mx \<and>
         (mx \<le> clicks_counted res \<or>
          (0 < rounds res \<and> (\<exists>n. current_count (round_at p (rounds res - 1)) = Inr n \<and> mn \<le> n))) \<and>
         (\<exists>t. trace res = t @ [FullScrollBottom 2 2, Sleep 2]) \<and>
         final_card_count p = Inr (final_count res) \<and>
         loader_returned res = PLocator PropertyCards"
proof -
  from assms obtain k c tr n where
    loop: "load_loop (round_at p) mn mx 0 0 [] = Inr (k, c, tr)" and
    fin: "final_card_count p = Inr n" and
    res: "res = \<lparr>loader_returned = PLocator PropertyCards, final_count = n, rounds = k,
                 clicks_counted = c, trace = tr @ [FullScrollBottom 2 2, Sleep 2]\<rparr>"
    by (auto simp: load_hotel_cards_def bindE_def split: sum.splits)
  from load_loop_inv[OF loop] show ?thesis
    using fin res by auto
qed

lemma load_round_one: "pass_costs_one r mn \<Longrightarrow> \<exists>t. load_round r mn c = Continue (c + 1) t"
  by (auto simp: pass_costs_one_def button_seen_def scrolls_ok_def load_round_def after_button_def
        stepE_def Let_def isl_def)

lemma load_round_success: "pass_succeeds r mn \<Longrightarrow> \<exists>t. load_round r mn c = Break t"
  by (auto simp: pass_succeeds_def button_seen_def scrolls_ok_def load_round_def after_button_def
        stepE_def Let_def)

lemma load_loop_ones:
  assumes "\<forall>i<j. pass_costs_one (page (k + i)) mn" and "c + j \<le> mx"
  shows "\<exists>tr'. load_loop page mn mx k c tr = load_loop page mn mx (k + j) (c + j) tr'"
  using assms
proof (induction j arbitrary: k c tr)
  case 0
  then show ?case by auto
next
  case (Suc j)
  from Suc.prems(1) have "pass_costs_one (page (k + 0)) mn" by blast
  then have "pass_costs_one (page k) mn" by simp
  from load_round_one[OF this, of c] obtain t where t: "load_round (page k) mn c = Continue (c + 1) t" ..
  from Suc.prems(2) have lt: "c < mx" by simp
  have step: "load_loop page mn mx k c tr = load_loop page mn mx (k + 1) (c + 1) (tr @ t)"
    using lt t by (subst load_loop.simps) simp
  have "\<forall>i<j. pass_costs_one (page (k + 1 + i)) mn"
  proof (intro allI impI)
    fix i assume "i < j"
    then have "Suc i < Suc j" by simp
    with Suc.prems(1) have "pass_costs_one (page (k + Suc i)) mn" by blast
    then show "pass_costs_one (page (k + 1 + i)) mn" by simp
  qed
  moreover from Suc.prems(2) have "c + 1 + j \<le> mx" by simp
  ultimately obtain tr' where
    "load_loop page mn mx (k + 1) (c + 1) (tr @ t) = load_loop page mn mx (k + 1 + j) (c + 1 + j) tr'"
    using Suc.IH[of "k + 1" "c + 1" "tr @ t"] by blast
  with step show ?case by (auto simp: add.commute add.left_commute)
qed

lemma loader_success_after:
  assumes "\<forall>k<j. pass_costs_one (round_at p k) mn" and "j < mx"
    and "pass_succeeds (round_at p j) mn"
    and "final_scroll p = Inr ()" and "final_card_count p = Inr m"
  shows "\<exists>res. load_hotel_cards p mn mx = Inr res \<and> rounds res = j + 1 \<and>
               clicks_counted res = j \<and> final_count res = m"
proof -
  from assms(1) have "\<forall>i<j. pass_costs_one (round_at p (0 + i)) mn" by simp
  moreover from assms(2) have "0 + j \<le> mx" by simp
  ultimately obtain tr' where
    l: "load_loop (round_at p) mn mx 0 0 [] = load_loop (round_at p) mn mx (0 + j) (0 + j) tr'"
    using load_loop_ones[of j "round_at p" 0 mn 0 mx "[]"] by blast
  from load_round_success[OF assms(3), of j] obtain t where "load_round (round_at p j) mn j = Break t" ..
  with assms(2) have "load_loop (round_at p) mn mx j j tr' = Inr (j + 1, j, tr' @ t)"
    by (subst load_loop.simps) simp
  with l assms(4,5) show ?thesis
    by (simp add: load_hotel_cards_def bindE_def)
qed

lemma loader_budget_used:
  assumes "\<forall>k<mx. pass_costs_one (round_at p k) mn"
    and "final_scroll p = Inr ()" and "final_card_count p = Inr m"
  shows "\<exists>res. load_hotel_cards p mn mx = Inr res \<and> rounds res = mx \<and>
               clicks_counted res = mx \<and> final_count res = m"
proof -
  from assms(1) have "\<forall>i<mx. pass_costs_one (round_at p (0 + i)) mn" by simp
  then obtain tr' where
    l: "load_loop (round_at p) mn mx 0 0 [] = load_loop (round_at p) mn mx (0 + mx) (0 + mx) tr'"
    using load_loop_ones[of mx "round_at p" 0 mn 0 mx "[]"] by auto
  have "load_loop (round_at p) mn mx mx mx tr' = Inr (mx, mx, tr')"
    by (subst load_loop.simps) simp
  with l assms(2,3) show ?thesis
    by (simp add: load_hotel_cards_def bindE_def)
qed

text \<open>
  C3 (as amended). With a budget of \<open>mx\<close> (5 in the program), every pass of the loader that
  does not end the loop consumes at least one unit of the budget, and exactly one (the
  scrolls having raised nothing) when the button never becomes visible, when the click
  fails, and when the click succeeds and the number of cards grows within the timeout. A
  pass that counts at least \<open>mn\<close> cards ends the loop at once, without a click. So the loop
  makes at most \<open>mx\<close> passes, and it ends with the budget used up or with a pass that
  counted at least \<open>mn\<close> cards; as long as the passes are of those three kinds it gives up
  only after \<open>mx\<close> full passes, or earlier on the first pass that counts at least \<open>mn\<close>
  cards, the budget used being the number of passes before it. The function then performs
  the final settle (two scrolls to the bottom and a pause), reads the current number of
  cards, and returns the locator of the cards. On a page whose calls raise nothing but the
  timeouts the loop handles, it does return.
\<close>

theorem loader_budget:
  "(load_round r mn c = Continue c' t \<longrightarrow> c < c') \<and>
   (scrolls_ok r \<and> wait_visible1 r = Inl TimeoutError \<and> wait_visible2 r = Inl TimeoutError
      \<longrightarrow> (\<exists>t. load_round r mn c = Continue (c + 1) t)) \<and>
   (scrolls_ok r \<and>
    (wait_visible1 r = Inr () \<or> wait_visible1 r = Inl TimeoutError \<and> wait_visible2 r = Inr ()) \<and>
    current_count r = Inr n \<and> n < mn \<and> isl (click_load_more r)
      \<longrightarrow> (\<exists>t. load_round r mn c = Continue (c + 1) t)) \<and>
   (scrolls_ok r \<and>
    (wait_visible1 r = Inr () \<or> wait_visible1 r = Inl TimeoutError \<and> wait_visible2 r = Inr ()) \<and>
    current_count r = Inr n \<and> n < mn \<and> click_load_more r = Inr () \<and> wait_more_cards r = Inr ()
      \<longrightarrow> (\<exists>t. load_round r mn c = Continue (c + 1) t)) \<and>
   (load_hotel_cards p mn mx = Inr res
      \<longrightarrow> rounds res \<le> mx \<and>
          (mx \<le> clicks_counted res \<or>
           (0 < rounds res \<and> (\<exists>n. current_count (round_at p (rounds res - 1)) = Inr n \<and> mn \<le> n))) \<and>
          (\<exists>t. trace res = t @ [FullScrollBottom 2 2, Sleep 2]) \<and>
          final_card_count p = Inr (final_count res) \<and>
          loader_returned res = PLocator PropertyCards) \<and>
   (benign_page p \<longrightarrow> (\<exists>res. load_hotel_cards p mn mx = Inr res)) \<and>
   (pass_succeeds r mn \<longrightarrow> (\<exists>t. load_round r mn c = Break t)) \<and>
   ((\<forall>k<j. pass_costs_one (round_at p k) mn) \<and> j < mx \<and> pass_succeeds (round_at p j) mn \<and>
    final_scroll p = Inr () \<and> final_card_count p = Inr m
      \<longrightarrow> (\<exists>res. load_hotel_cards p mn mx = Inr res \<and> rounds res = j + 1 \<and>
                 clicks_counted res = j \<and> final_count res = m)) \<and>
   ((\<forall>k<mx. pass_costs_one (round_at p k) mn) \<and>
    final_scroll p = Inr () \<and> final_card_count p = Inr m
      \<longrightarrow> (\<exists>res. load_hotel_cards p mn mx = Inr res \<and> rounds res = mx \<and>
                 clicks_counted res = mx \<and> final_count res = m))"
proof -
  have a: "load_round r mn c = Continue c' t \<longrightarrow> c < c'"
    using load_round_Continue by blast
  have b: "scrolls_ok r \<and> wait_visible1 r = Inl TimeoutError \<and> wait_visible2 r = Inl TimeoutError
      \<longrightarrow> (\<exists>t. load_round r mn c = Continue (c + 1) t)"
    by (simp add: load_round_def stepE_def scrolls_ok_def Let_def)
  have c: "scrolls_ok r \<and>
    (wait_visible1 r = Inr () \<or> wait_visible1 r = Inl TimeoutError \<and> wait_visible2 r = Inr ()) \<and>
    current_count r = Inr n \<and> n < mn \<and> isl (click_load_more r)
      \<longrightarrow> (\<exists>t. load_round r mn c = Continue (c + 1) t)"
    by (auto simp: load_round_def after_button_def stepE_def scrolls_ok_def Let_def isl_def)
  have d: "scrolls_ok r \<and>
    (wait_visible1 r = Inr () \<or> wait_visible1 r = Inl TimeoutError \<and> wait_visible2 r = Inr ()) \<and>
    current_count r = Inr n \<and> n < mn \<and> click_load_more r = Inr () \<and> wait_more_cards r = Inr ()
      \<longrightarrow> (\<exists>t. load_round r mn c = Continue (c + 1) t)"
    by (auto simp: load_round_def after_button_def stepE_def scrolls_ok_def Let_def)
  have e: "load_hotel_cards p mn mx = Inr res
      \<longrightarrow> rounds res \<le> mx \<and>
          (mx \<le> clicks_counted res \<or>
           (0 < rounds res \<and> (\<exists>n. current_count (round_at p (rounds res - 1)) = Inr n \<and> mn \<le> n))) \<and>
          (\<exists>t. trace res = t @ [FullScrollBottom 2 2, Sleep 2]) \<and>
          final_card_count p = Inr (final_count res) \<and>
          loader_returned res = PLocator PropertyCards"
    using load_hotel_cards_Inr by blast
  have f: "benign_page p \<longrightarrow> (\<exists>res. load_hotel_cards p mn mx = Inr res)"
    using load_hotel_cards_benign by blast
  have g: "pass_succeeds r mn \<longrightarrow> (\<exists>t. load_round r mn c = Break t)"
    using load_round_success by blast
  have h: "(\<forall>k<j. pass_costs_one (round_at p k) mn) \<and> j < mx \<and> pass_succeeds (round_at p j) mn \<and>
    final_scroll p = Inr () \<and> final_card_count p = Inr m
      \<longrightarrow> (\<exists>res. load_hotel_cards p mn mx = Inr res \<and> rounds res = j + 1 \<and>
                 clicks_counted res = j \<and> final_count res = m)"
    using loader_success_after[of j p mn mx m] by blast
  have i: "(\<forall>k<mx. pass_costs_one (round_at p k) mn) \<and>
    final_scroll p = Inr () \<and> final_card_count p = Inr m
      \<longrightarrow> (\<exists>res. load_hotel_cards p mn mx = Inr res \<and> rounds res = mx \<and>
                 clicks_counted res = mx \<and> final_count res = m)"
    using loader_budget_used[of mx p mn m] by blast
  show ?thesis
    by (rule conjI[OF a conjI[OF b conjI[OF c conjI[OF d conjI[OF e conjI[OF f conjI[OF g conjI[OF h i]]]]]]]])
qed

lemma steady_page_full:
  "load_hotel_cards (steady_page 50 True) 100 5 =
     Inr \<lparr>loader_returned = PLocator PropertyCards, final_count = 50, rounds = 5, clicks_counted = 5,
          trace = concat (replicate 5 [FullScrollBottom 3 2, HumanLikeScroll 1000 100 500, LoadMoreClick])
                  @ [FullScrollBottom 2 2, Sleep 2]\<rparr>"
  by (simp add: load_hotel_cards_def bindE_def steady_page_def steady_round_def
        load_loop.simps load_round_def after_button_def stepE_def Let_def numeral_eq_Suc)

lemma steady_round_kinds:
  "n < mn \<Longrightarrow> pass_costs_one (steady_round n True) mn"
  "mn \<le> n \<Longrightarrow> pass_succeeds (steady_round n g) mn"
  by (simp_all add: pass_costs_one_def pass_succeeds_def button_seen_def scrolls_ok_def
        steady_round_def)

text \<open>
  Three passes that consume one unit each and a pass that ends the loop; a page of 50
  cards that grows on every click: five passes, five units; a page of 100 cards: one pass,
  no click; a page that reaches 100 cards in its third pass: three passes, two units.
\<close>

theorem loader_budget_witness:
  "load_round ((steady_round 50 True)\<lparr>wait_visible1 := Inl TimeoutError, wait_visible2 := Inl TimeoutError\<rparr>) 100 0
     = Continue 1 [FullScrollBottom 3 2, HumanLikeScroll 1000 100 500, DismissGeniusPopup 3, Sleep 2,
                   FullScrollBottom 3 2] \<and>
   load_round ((steady_round 50 True)\<lparr>click_load_more := Inl TimeoutError\<rparr>) 100 0
     = Continue 1 [FullScrollBottom 3 2, HumanLikeScroll 1000 100 500, FallbackClick] \<and>
   load_round (steady_round 50 True) 100 0
     = Continue 1 [FullScrollBottom 3 2, HumanLikeScroll 1000 100 500, LoadMoreClick] \<and>
   load_round (steady_round 100 True) 100 0
     = Break [FullScrollBottom 3 2, HumanLikeScroll 1000 100 500] \<and>
   map_sum id (\<lambda>r. (rounds r, clicks_counted r, final_count r, loader_returned r))
     (load_hotel_cards (steady_page 50 True) 100 5) = Inr (5, 5, 50, PLocator PropertyCards) \<and>
   map_sum id (\<lambda>r. (rounds r, clicks_counted r, final_count r, loader_returned r))
     (load_hotel_cards (steady_page 100 True) 100 5) = Inr (1, 0, 100, PLocator PropertyCards) \<and>
   map_sum id (\<lambda>r. (rounds r, clicks_counted r, final_count r, loader_returned r))
     (load_hotel_cards (growing_page 2) 100 5) = Inr (3, 2, 100, PLocator PropertyCards)"
proof -
  let ?r1 = "(steady_round 50 True)\<lparr>wait_visible1 := Inl TimeoutError, wait_visible2 := Inl TimeoutError\<rparr>"
  let ?r2 = "(steady_round 50 True)\<lparr>click_load_more := Inl TimeoutError\<rparr>"
  let ?r3 = "steady_round 50 True"
  let ?r4 = "steady_round 100 True"
  let ?p = "steady_page 50 True"
  let ?q = "steady_page 100 True"
  let ?g = "growing_page 2"
  obtain res where res: "load_hotel_cards ?p 100 5 = Inr res"
    using loader_budget[where p = ?p and mn = 100 and mx = 5] benign_steady_page by blast
  have one: "load_round ?r3 100 0 = Continue 1 [FullScrollBottom 3 2, HumanLikeScroll 1000 100 500, LoadMoreClick]"
    by (simp add: load_round_def after_button_def stepE_def steady_round_def Let_def)
  have w1: "0 < (1::nat)"
    using loader_budget[where r = ?r3 and mn = 100 and c = 0 and c' = 1
        and t = "[FullScrollBottom 3 2, HumanLikeScroll 1000 100 500, LoadMoreClick]"] one by blast
  have w2: "\<exists>t. load_round ?r1 100 0 = Continue (0 + 1) t"
    using loader_budget[where r = ?r1 and mn = 100 and c = 0]
    by (simp add: steady_round_def scrolls_ok_def)
  have w3: "\<exists>t. load_round ?r2 100 0 = Continue (0 + 1) t"
    using loader_budget[where r = ?r2 and mn = 100 and c = 0 and n = 50]
    by (simp add: steady_round_def scrolls_ok_def)
  have w4: "\<exists>t. load_round ?r3 100 0 = Continue (0 + 1) t"
    using loader_budget[where r = ?r3 and mn = 100 and c = 0 and n = 50]
    by (simp add: steady_round_def scrolls_ok_def)
  have w5: "rounds res \<le> 5 \<and> loader_returned res = PLocator PropertyCards"
    using loader_budget[where p = ?p and mn = 100 and mx = 5 and res = res] res by blast
  have w7: "\<exists>t. load_round ?r4 100 0 = Break t"
    using loader_budget[where r = ?r4 and mn = 100 and c = 0] steady_round_kinds(2)[of 100 100 True]
    by blast
  have w9: "\<exists>res. load_hotel_cards ?p 100 5 = Inr res \<and> rounds res = 5 \<and>
               clicks_counted res = 5 \<and> final_count res = 50"
    using loader_budget[where p = ?p and mn = 100 and mx = 5 and m = 50]
      steady_round_kinds(1)[of 50 100]
    by (simp add: steady_page_def)
  have w8a: "\<exists>res. load_hotel_cards ?q 100 5 = Inr res \<and> rounds res = 0 + 1 \<and>
               clicks_counted res = 0 \<and> final_count res = 100"
    using loader_budget[where p = ?q and mn = 100 and mx = 5 and j = 0 and m = 100]
      steady_round_kinds(2)[of 100 100 True]
    by (simp add: steady_page_def)
  have w8b: "\<exists>res. load_hotel_cards ?g 100 5 = Inr res \<and> rounds res = 2 + 1 \<and>
               clicks_counted res = 2 \<and> final_count res = 100"
    using loader_budget[where p = ?g and mn = 100 and mx = 5 and j = 2 and m = 100]
      steady_round_kinds(1)[of 50 100] steady_round_kinds(2)[of 100 100 True]
    by (simp add: growing_page_def)
  have ret: "loader_returned r = PLocator PropertyCards" if "load_hotel_cards pg 100 5 = Inr r" for pg r
    using loader_budget[where p = pg and mn = 100 and mx = 5 and res = r] that by blast
  from w9 ret have a: "map_sum id (\<lambda>r. (rounds r, clicks_counted r, final_count r, loader_returned r))
     (load_hotel_cards ?p 100 5) = Inr (5, 5, 50, PLocator PropertyCards)" by auto
  from w8a ret have b: "map_sum id (\<lambda>r. (rounds r, clicks_counted r, final_count r, loader_returned r))
     (load_hotel_cards ?q 100 5) = Inr (1, 0, 100, PLocator PropertyCards)" by auto
  from w8b ret have c: "map_sum id (\<lambda>r. (rounds r, clicks_counted r, final_count r, loader_returned r))
     (load_hotel_cards ?g 100 5) = Inr (3, 2, 100, PLocator PropertyCards)" by auto
  from w1 w2 w3 w4 w5 w7 a b c show ?thesis
    by (simp add: load_round_def after_button_def stepE_def steady_round_def Let_def)
qed

text \<open>
  A page of 50 cards on which every click succeeds and no card arrives within the timeout:
  each pass consumes two units, so the loop gives up after three passes; and what the
  function returns is the locator, not the number 50.
\<close>

theorem loader_stalled_counterexample:
  "load_round (steady_round 50 False) 100 0
     = Continue 2 [FullScrollBottom 3 2, HumanLikeScroll 1000 100 500, LoadMoreClick] \<and>
   map_sum id (\<lambda>r. (rounds r, clicks_counted r, final_count r, loader_returned r))
     (load_hotel_cards (steady_page 50 False) 100 5) = Inr (3, 6, 50, PLocator PropertyCards) \<and>
   PLocator PropertyCards \<noteq> PInt 50"
  by (simp add: load_hotel_cards_def bindE_def steady_page_def steady_round_def
        load_loop.simps load_round_def after_button_def stepE_def Let_def)

section \<open>The pool\<close>

lemma concat_chunks: "0 < k \<Longrightarrow> concat (chunks k xs) = xs"
proof (induction k xs rule: chunks.induct)
  case (1 sz xs)
  show ?case
  proof (cases "xs = []")
    case True
    then show ?thesis by (subst chunks.simps) simp
  next
    case False
    with 1 show ?thesis by (subst chunks.simps) simp
  qed
qed

lemma chunks_Nil: "chunks k [] = []"
  by (subst chunks.simps) simp

lemma mapstar_all_ok:
  "\<forall>x\<in>set xs. f x = Some (Inr (g x)) \<Longrightarrow> mapstar f xs = Some (Inr (map g xs))"
  by (induction xs) auto

lemma mapstar_Inr:
  "mapstar f xs = Some (Inr ys) \<Longrightarrow> list_all2 (\<lambda>x y. f x = Some (Inr y)) xs ys"
  by (induction xs arbitrary: ys) (auto split: option.splits sum.splits)

lemma mapstar_None:
  assumes "\<forall>x\<in>set xs. \<forall>e. f x \<noteq> Some (Inl e)" and "x \<in> set xs" and "f x = None"
  shows "mapstar f xs = None"
  using assms
proof (induction xs)
  case Nil
  then show ?case by simp
next
  case (Cons a xs)
  show ?case
  proof (cases "f a")
    case None
    then show ?thesis by simp
  next
    case (Some r)
    with Cons.prems(1) obtain y where y: "f a = Some (Inr y)"
      by (cases r) auto
    with Cons.prems(2,3) have "x \<in> set xs" by auto
    with Cons.IH Cons.prems have "mapstar f xs = None" by simp
    with y show ?thesis by simp
  qed
qed

lemma gather_all_ok: "gather (map (\<lambda>ys. Some (Inr ys)) yss) = Some (Inr (concat yss))"
proof -
  let ?rs = "map (\<lambda>ys. Some ((Inr ys) :: error + 'a list)) yss"
  have a: "[e. Some (Inl e) \<leftarrow> ?rs] = []"
    by (induction yss) auto
  have b: "[ys. Some (Inr ys) \<leftarrow> ?rs] = yss"
    by (induction yss) auto
  have c: "None \<notin> set ?rs"
    by auto
  have "gather ?rs = Some (case [e. Some (Inl e) \<leftarrow> ?rs] of e # es \<Rightarrow> Inl e
                            | [] \<Rightarrow> Inr (concat [ys. Some (Inr ys) \<leftarrow> ?rs]))"
    unfolding gather_def using c by (simp only: if_False)
  then show ?thesis
    by (simp only: a b list.case)
qed

lemma gather_Inr_aux:
  "None \<notin> set rs \<Longrightarrow> [e. Some (Inl e) \<leftarrow> rs] = [] \<Longrightarrow>
   rs = map (\<lambda>ys. Some (Inr ys)) [ys. Some (Inr ys) \<leftarrow> rs]"
  by (induction rs) (auto split: option.splits sum.splits)

lemma gather_Inr:
  assumes "gather rs = Some (Inr ys)"
  shows "\<exists>yss. rs = map (\<lambda>ys. Some (Inr ys)) yss \<and> ys = concat yss"
proof -
  from assms have n: "None \<notin> set rs"
    by (auto simp: gather_def split: if_splits)
  from assms n have e: "[e. Some (Inl e) \<leftarrow> rs] = []"
    by (auto simp: gather_def split: if_splits list.splits)
  from assms n e have y: "ys = concat [ys. Some (Inr ys) \<leftarrow> rs]"
    by (simp add: gather_def)
  from gather_Inr_aux[OF n e] y show ?thesis by blast
qed

lemma gather_None: "None \<in> set rs \<Longrightarrow> gather rs = None"
  by (simp add: gather_def)

lemma list_all2_concat:
  "list_all2 (list_all2 R) xss yss \<Longrightarrow> list_all2 R (concat xss) (concat yss)"
  by (induction xss yss rule: list_all2_induct) (auto intro: list_all2_appendI)

lemma chunksize_pos: "0 < n \<Longrightarrow> 0 < chunksize_of p n"
  by (cases "n mod (p * 4) = 0") (auto simp: chunksize_of_def dest: mod_0_imp_dvd dvd_imp_le)

lemma pool_map_chunks: "pool_map p f xs = gather (map (mapstar f) (chunks (chunksize_of p (length xs)) xs))"
  by (simp add: pool_map_def)

lemma concat_pool_chunks: "concat (chunks (chunksize_of p (length xs)) xs) = xs"
proof (cases "xs = []")
  case True
  then show ?thesis by (simp add: chunks_Nil)
next
  case False
  then show ?thesis by (intro concat_chunks chunksize_pos) simp
qed

lemma pool_map_all_ok:
  assumes "\<forall>x\<in>set xs. f x = Some (Inr (g x))"
  shows "pool_map p f xs = Some (Inr (map g xs))"
proof -
  let ?cs = "chunks (chunksize_of p (length xs)) xs"
  have sub: "\<forall>c\<in>set ?cs. set c \<subseteq> set xs"
  proof
    fix c assume "c \<in> set ?cs"
    then have "set c \<subseteq> set (concat ?cs)" by auto
    then show "set c \<subseteq> set xs" by (simp add: concat_pool_chunks)
  qed
  have "map (mapstar f) ?cs = map (\<lambda>ys. Some (Inr ys)) (map (map g) ?cs)"
    using sub assms by (auto intro!: mapstar_all_ok)
  then have "pool_map p f xs = gather (map (\<lambda>ys. Some (Inr ys)) (map (map g) ?cs))"
    by (simp only: pool_map_chunks)
  then have "pool_map p f xs = Some (Inr (concat (map (map g) ?cs)))"
    by (simp only: gather_all_ok)
  also have "concat (map (map g) ?cs) = map g (concat ?cs)"
    by (simp add: map_concat)
  finally show ?thesis by (simp add: concat_pool_chunks)
qed

lemma pool_map_Inr:
  assumes "pool_map p f xs = Some (Inr ys)"
  shows "list_all2 (\<lambda>x y. f x = Some (Inr y)) xs ys"
proof -
  let ?cs = "chunks (chunksize_of p (length xs)) xs"
  from assms have "gather (map (mapstar f) ?cs) = Some (Inr ys)"
    by (simp add: pool_map_chunks)
  from gather_Inr[OF this] obtain yss where
    yss: "map (mapstar f) ?cs = map (\<lambda>ys. Some (Inr ys)) yss" "ys = concat yss"
    by blast
  from yss(1) have len: "length ?cs = length yss"
    by (metis length_map)
  have "mapstar f (?cs ! i) = Some (Inr (yss ! i))" if "i < length ?cs" for i
  proof -
    have "map (mapstar f) ?cs ! i = map (\<lambda>ys. Some (Inr ys)) yss ! i"
      by (simp only: yss(1))
    with that len show ?thesis by simp
  qed
  with len have "list_all2 (\<lambda>c ys. mapstar f c = Some (Inr ys)) ?cs yss"
    by (simp add: list_all2_conv_all_nth)
  then have "list_all2 (list_all2 (\<lambda>x y. f x = Some (Inr y))) ?cs yss"
    by (rule list_all2_mono) (rule mapstar_Inr)
  from list_all2_concat[OF this] yss(2) show ?thesis
    by (simp add: concat_pool_chunks)
qed

lemma pool_map_None:
  assumes "\<exists>x\<in>set xs. f x = None" and "\<forall>x\<in>set xs. \<forall>e. f x \<noteq> Some (Inl e)"
  shows "pool_map p f xs = None"
proof -
  let ?cs = "chunks (chunksize_of p (length xs)) xs"
  from assms(1) obtain x where x: "x \<in> set xs" "f x = None" by blast
  then have "x \<in> set (concat ?cs)" by (simp add: concat_pool_chunks)
  then obtain c where c: "c \<in> set ?cs" "x \<in> set c" by auto
  then have "set c \<subseteq> set (concat ?cs)" by auto
  then have "set c \<subseteq> set xs" by (simp add: concat_pool_chunks)
  with assms(2) have "\<forall>x\<in>set c. \<forall>e. f x \<noteq> Some (Inl e)" by blast
  with c(2) x(2) have "mapstar f c = None" by (intro mapstar_None[where x = x]) auto
  with c(1) have "None \<in> set (map (mapstar f) ?cs)" by force
  then show ?thesis by (simp add: pool_map_chunks gather_None)
qed

section \<open>Workers and the dispatcher\<close>

lemma get_dates_explicit:
  "0 < s \<Longrightarrow> 1 \<le> los \<Longrightarrow> e + los \<le> MAXORDINAL \<Longrightarrow>
   get_dates today (Some s) (Some e) los = Inr (tasks_of s e los)"
  using get_dates_loop_ok[of s los e "[]"] by (simp add: get_dates_def)

lemma get_dates_default:
  "0 < today \<Longrightarrow> 1 \<le> los \<Longrightarrow> today + 30 + los \<le> MAXORDINAL \<Longrightarrow>
   get_dates today None None los = Inr (tasks_of today (today + 30) los)"
  using get_dates_loop_ok[of today los "today + 30" "[]"]
  by (simp add: get_dates_def date_plus_days_def timedelta_def date_add_def Let_def)

lemma fst_tasks_of: "1 \<le> los \<Longrightarrow> fst ` set (tasks_of s e los) = {s..e}"
proof (intro equalityI subsetI)
  fix d assume "d \<in> fst ` set (tasks_of s e los)"
  then show "d \<in> {s..e}" by (auto simp: tasks_of_def)
next
  fix d assume los: "1 \<le> los" and d: "d \<in> {s..e}"
  have m: "(d, d + 1) \<in> set (map (\<lambda>j. (d, d + j)) [1..los])"
    using los by (simp add: image_iff)
  have "d \<in> set [s..e]" using d by simp
  then have "(\<lambda>d. map (\<lambda>j. (d, d + j)) [1..los]) d
               \<in> (\<lambda>d. map (\<lambda>j. (d, d + j)) [1..los]) ` set [s..e]"
    by (rule imageI)
  then have "map (\<lambda>j. (d, d + j)) [1..los] \<in> set (map (\<lambda>d. map (\<lambda>j. (d, d + j)) [1..los]) [s..e])"
    by (simp only: set_map)
  with m have "(d, d + 1) \<in> set (tasks_of s e los)"
    unfolding tasks_of_def set_concat by (rule UN_I[rotated])
  then have "fst (d, d + 1) \<in> fst ` set (tasks_of s e los)"
    by (rule imageI)
  then show "d \<in> fst ` set (tasks_of s e los)" by simp
qed

lemma checkin_days_tasks_of: "1 \<le> los \<Longrightarrow> checkin_days (tasks_of s e los) = nat (e - s + 1)"
  by (simp add: checkin_days_def fst_tasks_of)

lemma worker_accepted:
  "scrape_date_combination_sync_retry w (ci, co) = Some (Inr hs, k, sl) \<Longrightarrow>
   worker w (ci, co, csv) = Some (Inr (length hs, write_to_csv hs csv))"
  by (simp add: worker_def)


lemma worker_spins:
  "scrape_date_combination_sync_retry w (ci, co) = None \<Longrightarrow> worker w (ci, co, csv) = None"
  by (simp add: worker_def)

lemma worker_Inr:
  assumes "worker w (ci, co, csv) = Some (Inr y)"
  shows "\<exists>hs k sl. scrape_date_combination_sync_retry w (ci, co) = Some (Inr hs, k, sl) \<and>
           100 \<le> length hs \<and> y = (length hs, write_to_csv hs csv)"
proof -
  from assms obtain hs k sl where
    r: "scrape_date_combination_sync_retry w (ci, co) = Some (Inr hs, k, sl)" and
    y: "y = (length hs, write_to_csv hs csv)"
    by (auto simp: worker_def split: option.splits sum.splits prod.splits)
  from r have "scrape_retry_loop (attempt_of w (ci, co)) 0 0 = Some (Inr hs, k, sl)"
    by (simp add: scrape_date_combination_sync_retry_def)
  from retry_sound[OF this] have "100 \<le> length hs" by auto
  with r y show ?thesis by blast
qed

lemma accepted_batch_eq:
  "scrape_date_combination_sync_retry w t = Some (Inr hs, k, sl) \<Longrightarrow> accepted_batch w t = hs"
  by (simp add: accepted_batch_def)

lemma pool_all_accepted:
  assumes "\<forall>t\<in>set dates. \<exists>hs k sl. scrape_date_combination_sync_retry w t = Some (Inr hs, k, sl)"
  shows "pool_map p (worker w) (map (\<lambda>(checkin, checkout). (checkin, checkout, csv_name w)) dates) =
         Some (Inr (map (\<lambda>t. (length (accepted_batch w t), write_to_csv (accepted_batch w t) (csv_name w))) dates))"
proof -
  let ?args = "map (\<lambda>(checkin, checkout). (checkin, checkout, csv_name w)) dates"
  let ?g = "\<lambda>(ci, co, csv). (length (accepted_batch w (ci, co)), write_to_csv (accepted_batch w (ci, co)) csv)"
  have "\<forall>x\<in>set ?args. worker w x = Some (Inr (?g x))"
  proof
    fix x assume "x \<in> set ?args"
    then obtain ci co where t: "(ci, co) \<in> set dates" and x: "x = (ci, co, csv_name w)" by auto
    from assms t obtain hs k sl where
      r: "scrape_date_combination_sync_retry w (ci, co) = Some (Inr hs, k, sl)" by blast
    from worker_accepted[OF r] accepted_batch_eq[OF r] x
    show "worker w x = Some (Inr (?g x))" by simp
  qed
  from pool_map_all_ok[OF this]
  have "pool_map p (worker w) ?args = Some (Inr (map ?g ?args))" .
  moreover have "map ?g ?args = map (\<lambda>t. (length (accepted_batch w t), write_to_csv (accepted_batch w t) (csv_name w))) dates"
    by (auto simp: split_def)
  ultimately show ?thesis by simp
qed

lemma foldl_writes:
  "foldl (\<lambda>f write. write f) files (map (\<lambda>b. write_to_csv b name) bs) = appends bs name files"
  by (induction bs arbitrary: files) (auto simp: appends_def)

lemma insort_key_pair:
  "insort_key (\<lambda>p. k (fst p)) (t, g t) (map (\<lambda>t. (t, g t)) ys) = map (\<lambda>t. (t, g t)) (insort_key k t ys)"
  by (induction ys) auto

lemma sort_key_pair:
  "sort_key (\<lambda>p. k (fst p)) (map (\<lambda>t. (t, g t)) xs) = map (\<lambda>t. (t, g t)) (sort_key k xs)"
  by (induction xs) (auto simp: insort_key_pair)

lemma sum_list_insort_key:
  "sum_list (map f (insort_key k x ys)) = (f x :: nat) + sum_list (map f ys)"
  by (induction ys) auto

lemma sum_list_sort_key: "sum_list (map f (sort_key k xs)) = sum_list (map (f :: 'a \<Rightarrow> nat) xs)"
  by (induction xs) (auto simp: sum_list_insort_key)

lemma run_all_accepted:
  assumes d: "get_dates (clock_today w) sd ed los = Inr dates"
    and a: "\<forall>t\<in>set dates. \<exists>hs k sl. scrape_date_combination_sync_retry w t = Some (Inr hs, k, sl)"
  shows "scrape_all_dates_sync w ttt los sd ed files =
     Some (Inr \<lparr>run_returned = PStr (csv_name w),
                printed_total = sum_list (map (\<lambda>t. length (accepted_batch w t)) dates),
                all_counts = map (\<lambda>t. length (accepted_batch w t)) dates,
                files_after = appends (map (accepted_batch w) (sort_key (lock_time w) dates))
                                (csv_name w) (files(csv_name w := None))\<rparr>)"
proof -
  let ?wr = "\<lambda>t. write_to_csv (accepted_batch w t) (csv_name w)"
  let ?res = "map (\<lambda>t. (length (accepted_batch w t), ?wr t)) dates"
  have f1: "(if files (csv_name w) \<noteq> None then files(csv_name w := None) else files) = files(csv_name w := None)"
    by auto
  have c: "map fst ?res = map (\<lambda>t. length (accepted_batch w t)) dates"
    by (simp add: comp_def)
  have z: "zip dates (map snd ?res) = map (\<lambda>t. (t, ?wr t)) dates"
    by (induction dates) auto
  have "map snd (sort_key (\<lambda>p. lock_time w (fst p)) (map (\<lambda>t. (t, ?wr t)) dates))
        = map ?wr (sort_key (lock_time w) dates)"
    by (simp only: sort_key_pair[where k = "lock_time w" and g = ?wr]) (simp add: comp_def)
  also have "\<dots> = map (\<lambda>b. write_to_csv b (csv_name w)) (map (accepted_batch w) (sort_key (lock_time w) dates))"
    by (simp add: comp_def)
  finally have fw: "foldl (\<lambda>f write. write f) (files(csv_name w := None))
          (map snd (sort_key (\<lambda>p. lock_time w (fst p)) (map (\<lambda>t. (t, ?wr t)) dates)))
        = appends (map (accepted_batch w) (sort_key (lock_time w) dates)) (csv_name w) (files(csv_name w := None))"
    by (simp only: foldl_writes)
  show ?thesis
    unfolding scrape_all_dates_sync_def
    by (simp only: d sum.case Let_def pool_all_accepted[OF a] option.case f1 c z fw)
qed

section \<open>Appends and runs\<close>

lemma write_absent:
  "files name = None \<Longrightarrow>
   write_to_csv data name files name =
     Some (Header (columns (DataFrame data)) # map Row (frame_rows (DataFrame data)))"
  by (simp add: write_to_csv_def Let_def)

lemma write_present:
  "files name = Some old \<Longrightarrow>
   write_to_csv data name files name = Some (old @ map Row (frame_rows (DataFrame data)))"
  by (simp add: write_to_csv_def Let_def)

lemma write_other: "name' \<noteq> name \<Longrightarrow> write_to_csv data name files name' = files name'"
  by (simp add: write_to_csv_def Let_def split: option.splits)

lemma appends_present:
  "files name = Some old \<Longrightarrow>
   appends batches name files name =
     Some (old @ concat (map (\<lambda>d. map Row (frame_rows (DataFrame d))) batches))"
proof (induction batches arbitrary: files old)
  case Nil
  then show ?case by (simp add: appends_def)
next
  case (Cons b bs)
  have "appends (b # bs) name files = appends bs name (write_to_csv b name files)"
    by (simp add: appends_def)
  moreover have "write_to_csv b name files name = Some (old @ map Row (frame_rows (DataFrame b)))"
    using Cons.prems by (rule write_present)
  then have "appends bs name (write_to_csv b name files) name =
      Some ((old @ map Row (frame_rows (DataFrame b))) @
            concat (map (\<lambda>d. map Row (frame_rows (DataFrame d))) bs))"
    by (rule Cons.IH)
  ultimately show ?case by simp
qed

lemma appends_absent:
  assumes "files name = None" and "batches \<noteq> []"
  shows "appends batches name files name =
     Some (Header (columns (DataFrame (hd batches))) #
           concat (map (\<lambda>d. map Row (frame_rows (DataFrame d))) batches))"
proof -
  from assms(2) obtain b bs where bs: "batches = b # bs" by (cases batches) auto
  have "appends (b # bs) name files = appends bs name (write_to_csv b name files)"
    by (simp add: appends_def)
  moreover have "write_to_csv b name files name =
      Some (Header (columns (DataFrame b)) # map Row (frame_rows (DataFrame b)))"
    using assms(1) by (rule write_absent)
  then have "appends bs name (write_to_csv b name files) name =
      Some ((Header (columns (DataFrame b)) # map Row (frame_rows (DataFrame b))) @
            concat (map (\<lambda>d. map Row (frame_rows (DataFrame d))) bs))"
    by (rule appends_present)
  ultimately show ?thesis using bs by simp
qed

lemma appends_Nil: "appends [] name files = files"
  by (simp add: appends_def)

lemma no_header_in_rows: "filter is_header (concat (map (\<lambda>d. map Row (frame_rows (DataFrame d))) batches)) = []"
  by (induction batches) (auto simp: is_header_def filter_empty_conv)

lemma one_header:
  "length (filter is_header (Header cols # concat (map (\<lambda>d. map Row (frame_rows (DataFrame d))) batches))) = 1"
  by (simp add: no_header_in_rows) (simp add: is_header_def)

lemma frame_rows_order:
  "frame_rows (DataFrame data) = map (\<lambda>d. map (map_of d) (columns (DataFrame data))) data"
  by (simp add: DataFrame_def Let_def)

lemma list_all2_member: "list_all2 P xs ys \<Longrightarrow> x \<in> set xs \<Longrightarrow> \<exists>y. P x y"
  by (induction xs ys rule: list_all2_induct) auto

lemma run_Inr:
  assumes "scrape_all_dates_sync w ttt los sd ed files = Some (Inr r)"
  shows "\<exists>dates. get_dates (clock_today w) sd ed los = Inr dates \<and>
           (\<forall>t\<in>set dates. \<exists>hs k sl. scrape_date_combination_sync_retry w t = Some (Inr hs, k, sl) \<and>
                                       100 \<le> length hs)"
proof (cases "get_dates (clock_today w) sd ed los")
  case (Inl e)
  with assms show ?thesis by (simp add: scrape_all_dates_sync_def)
next
  case (Inr dates)
  let ?args = "map (\<lambda>(checkin, checkout). (checkin, checkout, csv_name w)) dates"
  have p: "\<exists>results. pool_map 24 (worker w) ?args = Some (Inr results)"
  proof (cases "pool_map 24 (worker w) ?args")
    case None
    with assms Inr show ?thesis by (simp add: scrape_all_dates_sync_def Let_def)
  next
    case (Some res)
    show ?thesis
    proof (cases res)
      case (Inl e)
      with assms Inr Some show ?thesis by (simp add: scrape_all_dates_sync_def Let_def)
    next
      case (Inr results)
      with Some show ?thesis by simp
    qed
  qed
  then obtain results where "pool_map 24 (worker w) ?args = Some (Inr results)" ..
  from pool_map_Inr[OF this]
  have l: "list_all2 (\<lambda>x y. worker w x = Some (Inr y)) ?args results" .
  have "\<exists>hs k sl. scrape_date_combination_sync_retry w t = Some (Inr hs, k, sl) \<and> 100 \<le> length hs"
    if t: "t \<in> set dates" for t
  proof -
    obtain ci co where tt: "t = (ci, co)" by (cases t)
    have "(\<lambda>(checkin, checkout). (checkin, checkout, csv_name w)) t \<in> set ?args"
      using t by (simp only: set_map) (rule imageI)
    then have m: "(ci, co, csv_name w) \<in> set ?args"
      using tt by simp
    from list_all2_member[OF l m] obtain y where "worker w (ci, co, csv_name w) = Some (Inr y)" ..
    from worker_Inr[OF this] tt show ?thesis by blast
  qed
  with Inr show ?thesis by blast
qed

lemma run_Inr_eq:
  assumes "scrape_all_dates_sync w ttt los sd ed files = Some (Inr r)"
  shows "\<exists>dates. get_dates (clock_today w) sd ed los = Inr dates \<and>
           (\<forall>t\<in>set dates. \<exists>hs k sl. scrape_date_combination_sync_retry w t = Some (Inr hs, k, sl) \<and>
                                       100 \<le> length hs) \<and>
           r = \<lparr>run_returned = PStr (csv_name w),
                printed_total = sum_list (map (\<lambda>t. length (accepted_batch w t)) dates),
                all_counts = map (\<lambda>t. length (accepted_batch w t)) dates,
                files_after = appends (map (accepted_batch w) (sort_key (lock_time w) dates))
                                (csv_name w) (files(csv_name w := None))\<rparr>"
proof -
  from run_Inr[OF assms] obtain dates where
    d: "get_dates (clock_today w) sd ed los = Inr dates" and
    a: "\<forall>t\<in>set dates. \<exists>hs k sl. scrape_date_combination_sync_retry w t = Some (Inr hs, k, sl) \<and>
                                       100 \<le> length hs" by blast
  from a have a': "\<forall>t\<in>set dates. \<exists>hs k sl. scrape_date_combination_sync_retry w t = Some (Inr hs, k, sl)"
    by blast
  from run_all_accepted[OF d a', of ttt files] assms
  have "r = \<lparr>run_returned = PStr (csv_name w),
                printed_total = sum_list (map (\<lambda>t. length (accepted_batch w t)) dates),
                all_counts = map (\<lambda>t. length (accepted_batch w t)) dates,
                files_after = appends (map (accepted_batch w) (sort_key (lock_time w) dates))
                                (csv_name w) (files(csv_name w := None))\<rparr>"
    by simp
  with d a show ?thesis by blast
qed

lemma run_spins:
  assumes d: "get_dates (clock_today w) sd ed los = Inr dates"
    and s: "\<exists>t\<in>set dates. scrape_date_combination_sync_retry w t = None"
    and n: "\<forall>t\<in>set dates. \<forall>e k sl. scrape_date_combination_sync_retry w t \<noteq> Some (Inl e, k, sl)"
  shows "scrape_all_dates_sync w ttt los sd ed files = None"
proof -
  let ?args = "map (\<lambda>(checkin, checkout). (checkin, checkout, csv_name w)) dates"
  from s obtain ci co where t: "(ci, co) \<in> set dates" "scrape_date_combination_sync_retry w (ci, co) = None"
    by auto
  then have "(ci, co, csv_name w) \<in> set ?args" by force
  with worker_spins[OF t(2)] have one: "\<exists>x\<in>set ?args. worker w x = None" by blast
  have none: "\<forall>x\<in>set ?args. \<forall>e. worker w x \<noteq> Some (Inl e)"
  proof (intro ballI allI)
    fix x e assume "x \<in> set ?args"
    then obtain ci co where t: "(ci, co) \<in> set dates" and x: "x = (ci, co, csv_name w)" by auto
    show "worker w x \<noteq> Some (Inl e)"
    proof
      assume "worker w x = Some (Inl e)"
      with x obtain k sl where "scrape_date_combination_sync_retry w (ci, co) = Some (Inl e, k, sl)"
        by (auto simp: worker_def split: option.splits sum.splits prod.splits)
      with n t show False by blast
    qed
  qed
  from pool_map_None[OF one none] d show ?thesis
    by (simp add: scrape_all_dates_sync_def Let_def)
qed

lemma length_frame_rows: "length (frame_rows (DataFrame d)) = length d"
  by (simp add: frame_rows_order)

lemma length_rows_concat:
  "length (concat (map (\<lambda>d. map Row (frame_rows (DataFrame d))) batches)) = sum_list (map length batches)"
  by (induction batches) (auto simp: length_frame_rows)

lemma accepted_columns:
  assumes "scrape_date_combination_sync_retry w t = Some (Inr hs, k, sl)"
  shows "hs \<noteq> [] \<and> (\<forall>h\<in>set hs. keys h = record_fields) \<and> columns (DataFrame hs) = record_fields"
proof -
  from assms have "scrape_retry_loop (attempt_of w t) 0 0 = Some (Inr hs, k, sl)"
    by (simp add: scrape_date_combination_sync_retry_def)
  from retry_sound[OF this] obtain j where j: "Inr hs = attempt_of w t j" and l: "100 \<le> length hs"
    by auto
  from j have "scrape_date_combination_sync (format_date w) (session_of w t j) (fst t) (snd t) = Inr hs"
    by (simp add: attempt_of_def)
  from attempt_keys[OF this] have ks: "\<forall>h\<in>set hs. keys h = record_fields" .
  from l have ne: "hs \<noteq> []" by auto
  from columns_DataFrame[OF ne ks] ne ks show ?thesis by blast
qed

lemma run_file_lines:
  assumes "scrape_all_dates_sync w ttt los sd ed files = Some (Inr r)"
    and "files_after r (csv_name w) = Some ls"
  shows "\<exists>rows. ls = Header record_fields # rows \<and> filter is_header rows = [] \<and>
                length rows = printed_total r \<and> filter (\<lambda>l. \<not> is_blank l) rows = rows"
proof -
  from run_Inr_eq[OF assms(1)] obtain dates where
    d: "get_dates (clock_today w) sd ed los = Inr dates" and
    a: "\<forall>t\<in>set dates. \<exists>hs k sl. scrape_date_combination_sync_retry w t = Some (Inr hs, k, sl) \<and>
                                       100 \<le> length hs" and
    r: "r = \<lparr>run_returned = PStr (csv_name w),
                printed_total = sum_list (map (\<lambda>t. length (accepted_batch w t)) dates),
                all_counts = map (\<lambda>t. length (accepted_batch w t)) dates,
                files_after = appends (map (accepted_batch w) (sort_key (lock_time w) dates))
                                (csv_name w) (files(csv_name w := None))\<rparr>"
    by blast
  let ?bs = "map (accepted_batch w) (sort_key (lock_time w) dates)"
  let ?rows = "concat (map (\<lambda>d. map Row (frame_rows (DataFrame d))) ?bs)"
  have fa: "files_after r (csv_name w) = appends ?bs (csv_name w) (files(csv_name w := None)) (csv_name w)"
    using r by simp
  have ne: "?bs \<noteq> []"
  proof
    assume "?bs = []"
    with fa assms(2) show False by (simp add: appends_Nil)
  qed
  have absent: "(files(csv_name w := None)) (csv_name w) = None" by simp
  from absent ne have "appends ?bs (csv_name w) (files(csv_name w := None)) (csv_name w)
      = Some (Header (columns (DataFrame (hd ?bs))) # ?rows)"
    by (intro appends_absent)
  with fa assms(2) have ls: "ls = Header (columns (DataFrame (hd ?bs))) # ?rows" by simp
  from ne have "hd ?bs \<in> set ?bs" by (rule hd_in_set)
  then obtain t where t: "t \<in> set dates" "hd ?bs = accepted_batch w t" by auto
  with a obtain hs k sl where acc: "scrape_date_combination_sync_retry w t = Some (Inr hs, k, sl)"
    by blast
  from accepted_columns[OF acc] accepted_batch_eq[OF acc] t(2)
  have cols: "columns (DataFrame (hd ?bs)) = record_fields" by simp
  have "length ?rows = sum_list (map length ?bs)"
    by (rule length_rows_concat)
  also have "\<dots> = sum_list (map (\<lambda>t. length (accepted_batch w t)) (sort_key (lock_time w) dates))"
    by (simp add: comp_def)
  also have "\<dots> = sum_list (map (\<lambda>t. length (accepted_batch w t)) dates)"
    by (rule sum_list_sort_key)
  finally have len: "length ?rows = printed_total r" using r by simp
  have "\<not> is_blank l" if l: "l \<in> set ?rows" for l
  proof -
    from l obtain t where t: "t \<in> set dates"
      and lt: "l \<in> set (map Row (frame_rows (DataFrame (accepted_batch w t))))"
      by auto
    from a t obtain hs k sl where acc: "scrape_date_combination_sync_retry w t = Some (Inr hs, k, sl)"
      by blast
    from accepted_columns[OF acc] accepted_batch_eq[OF acc]
    have "columns (DataFrame (accepted_batch w t)) = record_fields" by simp
    with lt show ?thesis
      by (auto simp: frame_rows_order is_blank_def record_fields_def)
  qed
  then have "filter (\<lambda>l. \<not> is_blank l) ?rows = ?rows"
    by (intro filter_True) blast
  with len ls cols no_header_in_rows show ?thesis by blast
qed

section \<open>A world in which every attempt is accepted\<close>

lemma retry_world_full:
  assumes "100 \<le> length (cs 0)"
  shows "scrape_date_combination_sync_retry (world_with (\<lambda>t k. session_with (cs k))) task =
     Some (Inr (map (\<lambda>h. dict_set ''checkout'' (PStr (january (snd task)))
                            (dict_set ''checkin'' (PStr (january (fst task))) h))
                    (map extract_card (take 100 (cs 0)))), 1, 0)"
proof -
  let ?hs = "map (\<lambda>h. dict_set ''checkout'' (PStr (january (snd task)))
                            (dict_set ''checkin'' (PStr (january (fst task))) h))
                    (map extract_card (take 100 (cs 0)))"
  have "attempt_of (world_with (\<lambda>t k. session_with (cs k))) task 0 = Inr ?hs"
    by (rule attempt_world_with)
  moreover have "100 \<le> length ?hs" using assms by simp
  ultimately have "scrape_retry_loop (attempt_of (world_with (\<lambda>t k. session_with (cs k))) task) 0 0
      = Some (Inr ?hs, 0 + 1, 0)"
    by (rule retry_accept)
  then show ?thesis by (simp add: scrape_date_combination_sync_retry_def)
qed

lemma accepted_world_full:
  assumes "100 \<le> length (cs 0)"
  shows "length (accepted_batch (world_with (\<lambda>t k. session_with (cs k))) task) = 100"
  using retry_world_full[where cs = cs and task = task] assms by (simp add: accepted_batch_def)

lemma csv_name_world_with: "csv_name (world_with ss) = ''booking_com_20240101.csv''"
  by (simp add: csv_name_def world_with_def)

section \<open>The result sink's contract\<close>

text \<open>
  C5. An append to a destination that does not exist creates it with one header line
  followed by the rows of the batch; an append to a destination that exists adds the rows
  of the batch after what is there and writes no header. The rows are those of the
  records, in the order of the batch. So any sequence of appends to a fresh destination
  leaves a file with exactly one header line, followed by the rows of the batches in
  order. A run starts by deleting the file of its date-stamped name: what it leaves under
  that name is a sequence of appends to a fresh destination, whatever was there before:
  exactly one header line, and as many rows as the total it prints.
\<close>

theorem header_written_once:
  "(files name = None \<longrightarrow>
      write_to_csv data name files name =
        Some (Header (columns (DataFrame data)) # map Row (frame_rows (DataFrame data)))) \<and>
   (files name = Some old \<longrightarrow>
      write_to_csv data name files name = Some (old @ map Row (frame_rows (DataFrame data)))) \<and>
   frame_rows (DataFrame data) = map (\<lambda>d. map (map_of d) (columns (DataFrame data))) data \<and>
   (files name = None \<and> batches \<noteq> [] \<longrightarrow>
      (\<exists>ls. appends batches name files name = Some ls \<and>
            ls = Header (columns (DataFrame (hd batches))) #
                 concat (map (\<lambda>d. map Row (frame_rows (DataFrame d))) batches) \<and>
            length (filter is_header ls) = 1)) \<and>
   (scrape_all_dates_sync w ttt los sd ed files = Some (Inr r) \<longrightarrow>
      (\<exists>batches. files_after r = appends batches (csv_name w) (files(csv_name w := None))) \<and>
      (\<forall>ls. files_after r (csv_name w) = Some ls \<longrightarrow>
            length (filter is_header ls) = 1 \<and> length ls = 1 + printed_total r))"
proof -
  have a: "files name = None \<longrightarrow>
      write_to_csv data name files name =
        Some (Header (columns (DataFrame data)) # map Row (frame_rows (DataFrame data)))"
    using write_absent by blast
  have b: "files name = Some old \<longrightarrow>
      write_to_csv data name files name = Some (old @ map Row (frame_rows (DataFrame data)))"
    using write_present by blast
  have c: "files name = None \<and> batches \<noteq> [] \<longrightarrow>
      (\<exists>ls. appends batches name files name = Some ls \<and>
            ls = Header (columns (DataFrame (hd batches))) #
                 concat (map (\<lambda>d. map Row (frame_rows (DataFrame d))) batches) \<and>
            length (filter is_header ls) = 1)"
    using appends_absent[of files name batches] one_header by blast
  have d: "(\<exists>batches. files_after r = appends batches (csv_name w) (files(csv_name w := None))) \<and>
      (\<forall>ls. files_after r (csv_name w) = Some ls \<longrightarrow>
            length (filter is_header ls) = 1 \<and> length ls = 1 + printed_total r)"
    if run: "scrape_all_dates_sync w ttt los sd ed files = Some (Inr r)"
  proof -
    from run_Inr_eq[OF run] obtain batches where
      fa: "files_after r = appends batches (csv_name w) (files(csv_name w := None))"
      by force
    have "length (filter is_header ls) = 1 \<and> length ls = 1 + printed_total r"
      if ls: "files_after r (csv_name w) = Some ls" for ls
    proof -
      from run_file_lines[OF run ls] obtain rows where
        "ls = Header record_fields # rows" "filter is_header rows = []" "length rows = printed_total r"
        by blast
      then show ?thesis by (simp add: is_header_def)
    qed
    with fa show ?thesis by blast
  qed
  from a b c d frame_rows_order show ?thesis by blast
qed

text \<open>
  An append to a fresh file, an append to the file it made, two appends in a row, and a run
  of one task of 100 cards over a stale file of two header lines: one header and 100 rows.
\<close>

theorem header_written_once_witness:
  "write_to_csv [[(''a'', PInt 1)]] ''out.csv'' Map.empty ''out.csv''
     = Some [Header [''a''], Row [Some (PInt 1)]] \<and>
   write_to_csv [[(''a'', PInt 2)]] ''out.csv'' [''out.csv'' \<mapsto> [Header [''a''], Row [Some (PInt 1)]]] ''out.csv''
     = Some [Header [''a''], Row [Some (PInt 1)], Row [Some (PInt 2)]] \<and>
   appends [[[(''a'', PInt 1)], [(''a'', PInt 2)]], [[(''a'', PInt 3)]]] ''out.csv'' Map.empty ''out.csv''
     = Some [Header [''a''], Row [Some (PInt 1)], Row [Some (PInt 2)], Row [Some (PInt 3)]] \<and>
   map_option (map_sum id (\<lambda>r. map_option (\<lambda>ls. (length (filter is_header ls), length ls))
                                 (files_after r ''booking_com_20240101.csv'')))
     (scrape_all_dates_sync (world_with (\<lambda>t k. session_with (replicate 100 failing_card))) 30 1
        (Some 738886) (Some 738886)
        [''booking_com_20240101.csv'' \<mapsto> [Header [''stale''], Header [''stale'']]])
     = Some (Inr (Some (1, 101)))"
proof -
  let ?w = "world_with (\<lambda>t k. session_with (replicate 100 failing_card))"
  let ?files = "[''booking_com_20240101.csv'' \<mapsto> [Header [''stale''], Header [''stale'']]]"
  let ?csv = "''booking_com_20240101.csv''"
  have df: "DataFrame [[(''a'', v)]] = \<lparr>columns = [''a''], frame_rows = [[Some v]]\<rparr>" for v
    by (simp add: DataFrame_def keys_def)
  have df2: "DataFrame [[(''a'', u)], [(''a'', v)]] = \<lparr>columns = [''a''], frame_rows = [[Some u], [Some v]]\<rparr>" for u v
    by (simp add: DataFrame_def keys_def)
  have one: "write_to_csv [[(''a'', PInt 1)]] ''out.csv'' Map.empty ''out.csv''
     = Some [Header [''a''], Row [Some (PInt 1)]]"
    using header_written_once[where files = Map.empty and name = "''out.csv''" and data = "[[(''a'', PInt 1)]]"]
    by (simp add: df)
  have two: "write_to_csv [[(''a'', PInt 2)]] ''out.csv'' [''out.csv'' \<mapsto> [Header [''a''], Row [Some (PInt 1)]]] ''out.csv''
     = Some [Header [''a''], Row [Some (PInt 1)], Row [Some (PInt 2)]]"
    using header_written_once[where files = "[''out.csv'' \<mapsto> [Header [''a''], Row [Some (PInt 1)]]]"
        and name = "''out.csv''" and data = "[[(''a'', PInt 2)]]" and old = "[Header [''a''], Row [Some (PInt 1)]]"]
    by (simp add: df)
  have three: "appends [[[(''a'', PInt 1)], [(''a'', PInt 2)]], [[(''a'', PInt 3)]]] ''out.csv'' Map.empty ''out.csv''
     = Some [Header [''a''], Row [Some (PInt 1)], Row [Some (PInt 2)], Row [Some (PInt 3)]]"
    using header_written_once[where files = Map.empty and name = "''out.csv''"
        and batches = "[[[(''a'', PInt 1)], [(''a'', PInt 2)]], [[(''a'', PInt 3)]]]"]
    by (simp add: df df2)
  have dates: "get_dates (clock_today ?w) (Some 738886) (Some 738886) 1 = Inr [(738886, 738887)]"
    using get_dates_explicit[of 738886 1 738886] by (simp add: MAXORDINAL_def tasks_of_def upto.simps)
  have acc: "\<forall>t\<in>set [(738886 :: int, 738887 :: int)].
      \<exists>hs k sl. scrape_date_combination_sync_retry ?w t = Some (Inr hs, k, sl)"
    using retry_world_full[where cs = "\<lambda>k. replicate 100 failing_card"] by simp
  from run_all_accepted[OF dates acc, of 30 ?files]
  obtain r where run: "scrape_all_dates_sync ?w 30 1 (Some 738886) (Some 738886) ?files = Some (Inr r)"
    and fa: "files_after r = appends [accepted_batch ?w (738886, 738887)] ?csv (?files(?csv := None))"
    by (simp add: world_with_def csv_name_def)
  have len: "length (accepted_batch ?w (738886, 738887)) = 100"
    using accepted_world_full[where cs = "\<lambda>k. replicate 100 failing_card" and task = "(738886, 738887)"]
    by simp
  have "files_after r ?csv = Some (Header (columns (DataFrame (accepted_batch ?w (738886, 738887)))) #
            map Row (frame_rows (DataFrame (accepted_batch ?w (738886, 738887)))))"
    by (simp add: fa appends_def write_absent)
  moreover have "length (frame_rows (DataFrame (accepted_batch ?w (738886, 738887)))) = 100"
    using len by (simp add: frame_rows_order)
  moreover have "\<forall>ls. files_after r ?csv = Some ls \<longrightarrow> length (filter is_header ls) = 1"
    using header_written_once[where w = ?w and ttt = 30 and los = 1 and sd = "Some 738886"
        and ed = "Some 738886" and files = ?files and r = r] run by (simp add: csv_name_world_with)
  ultimately have four: "map_option (\<lambda>ls. (length (filter is_header ls), length ls)) (files_after r ?csv)
      = Some (1, 101)"
    by simp
  from one two three four run show ?thesis by simp
qed

section \<open>The dispatcher's contract\<close>

lemma retry_world_low:
  assumes "\<forall>k. length (cs k) < 100"
  shows "scrape_date_combination_sync_retry (world_with (\<lambda>t k. session_with (cs k))) task = None"
proof -
  have "\<forall>i. \<exists>hs. attempt_of (world_with (\<lambda>t k. session_with (cs k))) task i = Inr hs \<and> length hs < 100"
    using assms by (simp add: attempt_world_with)
  then show ?thesis
    by (simp add: scrape_date_combination_sync_retry_def retry_never)
qed

lemma two_tasks: "get_dates 738886 (Some 738886) (Some 738886) 2 = Inr [(738886, 738887), (738886, 738888)]"
  using get_dates_explicit[of 738886 2 738886] by (simp add: MAXORDINAL_def tasks_of_def upto.simps)

text \<open>
  C6 (as amended). The dispatcher submits every task of the partitioner. When every task's
  executor is accepted it returns, having computed and printed the sum of the
  accepted-record counts over all tasks (one count per task, in task order); what it
  returns is the name of the output file, not the sum. It returns only then: a returned
  run means that every task's executor was accepted with at least 100 records, and when
  some executor never returns and none raises, the dispatcher never returns.
\<close>

theorem dispatcher_contract:
  "(get_dates (clock_today w) sd ed los = Inr dates \<and>
    (\<forall>t\<in>set dates. \<exists>hs k sl. scrape_date_combination_sync_retry w t = Some (Inr hs, k, sl))
      \<longrightarrow> (\<exists>r. scrape_all_dates_sync w ttt los sd ed files = Some (Inr r) \<and>
               run_returned r = PStr (csv_name w) \<and>
               all_counts r = map (\<lambda>t. length (accepted_batch w t)) dates \<and>
               printed_total r = sum_list (map (\<lambda>t. length (accepted_batch w t)) dates))) \<and>
   (scrape_all_dates_sync w ttt los sd ed files = Some (Inr r)
      \<longrightarrow> (\<exists>dates. get_dates (clock_today w) sd ed los = Inr dates \<and>
               (\<forall>t\<in>set dates. \<exists>hs k sl. scrape_date_combination_sync_retry w t = Some (Inr hs, k, sl) \<and>
                                           100 \<le> length hs) \<and>
               all_counts r = map (\<lambda>t. length (accepted_batch w t)) dates \<and>
               printed_total r = sum_list (all_counts r) \<and>
               run_returned r = PStr (csv_name w))) \<and>
   (get_dates (clock_today w) sd ed los = Inr dates \<and>
    (\<exists>t\<in>set dates. scrape_date_combination_sync_retry w t = None) \<and>
    (\<forall>t\<in>set dates. \<forall>e k sl. scrape_date_combination_sync_retry w t \<noteq> Some (Inl e, k, sl))
      \<longrightarrow> scrape_all_dates_sync w ttt los sd ed files = None)"
proof -
  have a: "\<exists>r. scrape_all_dates_sync w ttt los sd ed files = Some (Inr r) \<and>
               run_returned r = PStr (csv_name w) \<and>
               all_counts r = map (\<lambda>t. length (accepted_batch w t)) dates \<and>
               printed_total r = sum_list (map (\<lambda>t. length (accepted_batch w t)) dates)"
    if "get_dates (clock_today w) sd ed los = Inr dates"
      and "\<forall>t\<in>set dates. \<exists>hs k sl. scrape_date_combination_sync_retry w t = Some (Inr hs, k, sl)"
    using run_all_accepted[OF that, of ttt files] by simp
  have b: "\<exists>dates. get_dates (clock_today w) sd ed los = Inr dates \<and>
               (\<forall>t\<in>set dates. \<exists>hs k sl. scrape_date_combination_sync_retry w t = Some (Inr hs, k, sl) \<and>
                                           100 \<le> length hs) \<and>
               all_counts r = map (\<lambda>t. length (accepted_batch w t)) dates \<and>
               printed_total r = sum_list (all_counts r) \<and>
               run_returned r = PStr (csv_name w)"
    if "scrape_all_dates_sync w ttt los sd ed files = Some (Inr r)"
  proof -
    from run_Inr_eq[OF that] obtain dates where
      d: "get_dates (clock_today w) sd ed los = Inr dates"
         "\<forall>t\<in>set dates. \<exists>hs k sl. scrape_date_combination_sync_retry w t = Some (Inr hs, k, sl) \<and>
                                           100 \<le> length hs" and
      r: "r = \<lparr>run_returned = PStr (csv_name w),
                printed_total = sum_list (map (\<lambda>t. length (accepted_batch w t)) dates),
                all_counts = map (\<lambda>t. length (accepted_batch w t)) dates,
                files_after = appends (map (accepted_batch w) (sort_key (lock_time w) dates))
                                (csv_name w) (files(csv_name w := None))\<rparr>"
      by blast
    from r have "all_counts r = map (\<lambda>t. length (accepted_batch w t)) dates"
      "printed_total r = sum_list (all_counts r)" "run_returned r = PStr (csv_name w)"
      by simp_all
    with d show ?thesis by blast
  qed
  have c: "scrape_all_dates_sync w ttt los sd ed files = None"
    if "get_dates (clock_today w) sd ed los = Inr dates"
      and "\<exists>t\<in>set dates. scrape_date_combination_sync_retry w t = None"
      and "\<forall>t\<in>set dates. \<forall>e k sl. scrape_date_combination_sync_retry w t \<noteq> Some (Inl e, k, sl)"
    using that by (rule run_spins)
  from a b c show ?thesis by blast
qed

text \<open>
  The scenario of 2024-01-01 with \<open>los = 2\<close>: two tasks of 100 records each, a printed
  total of 200 and the file name as result; and the same tasks on pages of 99 cards: the
  dispatcher never returns.
\<close>

theorem dispatcher_contract_witness:
  "map_option (map_sum id (\<lambda>r. (run_returned r, all_counts r, printed_total r)))
     (scrape_all_dates_sync (world_with (\<lambda>t k. session_with (replicate 100 failing_card))) 30 2
        (Some 738886) (Some 738886) Map.empty)
     = Some (Inr (PStr ''booking_com_20240101.csv'', [100, 100], 200)) \<and>
   scrape_all_dates_sync (world_with (\<lambda>t k. session_with (replicate 99 failing_card))) 30 2
        (Some 738886) (Some 738886) Map.empty = None"
proof -
  let ?w = "world_with (\<lambda>t k. session_with (replicate 100 failing_card))"
  let ?v = "world_with (\<lambda>t k. session_with (replicate 99 failing_card))"
  let ?dates = "[(738886 :: int, 738887 :: int), (738886, 738888)]"
  have dw: "get_dates (clock_today ?w) (Some 738886) (Some 738886) 2 = Inr ?dates"
    using two_tasks by (simp add: world_with_def)
  have dv: "get_dates (clock_today ?v) (Some 738886) (Some 738886) 2 = Inr ?dates"
    using two_tasks by (simp add: world_with_def)
  have acc: "\<forall>t\<in>set ?dates. \<exists>hs k sl. scrape_date_combination_sync_retry ?w t = Some (Inr hs, k, sl)"
    using retry_world_full[where cs = "\<lambda>k. replicate 100 failing_card"] by simp
  have len: "length (accepted_batch ?w t) = 100" for t
    using accepted_world_full[where cs = "\<lambda>k. replicate 100 failing_card" and task = t] by simp
  from dispatcher_contract[where w = ?w and sd = "Some 738886" and ed = "Some 738886" and los = 2
      and dates = ?dates and ttt = 30 and files = Map.empty] dw acc
  obtain r where r: "scrape_all_dates_sync ?w 30 2 (Some 738886) (Some 738886) Map.empty = Some (Inr r)"
    "run_returned r = PStr (csv_name ?w)"
    "all_counts r = map (\<lambda>t. length (accepted_batch ?w t)) ?dates"
    "printed_total r = sum_list (map (\<lambda>t. length (accepted_batch ?w t)) ?dates)"
    by blast
  from dispatcher_contract[where w = ?w and sd = "Some 738886" and ed = "Some 738886" and los = 2
      and ttt = 30 and files = Map.empty and r = r] r(1)
  have tot: "printed_total r = sum_list (all_counts r)" by blast
  have first: "map_option (map_sum id (\<lambda>r. (run_returned r, all_counts r, printed_total r)))
     (scrape_all_dates_sync ?w 30 2 (Some 738886) (Some 738886) Map.empty)
     = Some (Inr (PStr ''booking_com_20240101.csv'', [100, 100], 200))"
    using r tot by (simp add: len csv_name_world_with)
  have "scrape_date_combination_sync_retry ?v (738886, 738887) = None"
    using retry_world_low[where cs = "\<lambda>k. replicate 99 failing_card"] by simp
  then have spin: "\<exists>t\<in>set ?dates. scrape_date_combination_sync_retry ?v t = None"
    by simp
  have noraise: "\<forall>t\<in>set ?dates. \<forall>e k sl. scrape_date_combination_sync_retry ?v t \<noteq> Some (Inl e, k, sl)"
    using retry_world_low[where cs = "\<lambda>k. replicate 99 failing_card"] by simp
  from dispatcher_contract[where w = ?v and sd = "Some 738886" and ed = "Some 738886" and los = 2
      and dates = ?dates and ttt = 30 and files = Map.empty] dv spin noraise
  have second: "scrape_all_dates_sync ?v 30 2 (Some 738886) (Some 738886) Map.empty = None"
    by blast
  from first second show ?thesis by simp
qed

text \<open>
  In that scenario the value returned is the string \<open>booking_com_20240101.csv\<close>; the sum 200
  is only printed.
\<close>

theorem dispatcher_returns_name_counterexample:
  "map_option (map_sum id (\<lambda>r. (run_returned r, printed_total r)))
     (scrape_all_dates_sync (world_with (\<lambda>t k. session_with (replicate 100 failing_card))) 30 2
        (Some 738886) (Some 738886) Map.empty)
     = Some (Inr (PStr ''booking_com_20240101.csv'', 200)) \<and>
   PStr ''booking_com_20240101.csv'' \<noteq> PInt 200"
proof -
  let ?w = "world_with (\<lambda>t k. session_with (replicate 100 failing_card))"
  let ?dates = "[(738886 :: int, 738887 :: int), (738886, 738888)]"
  have dw: "get_dates (clock_today ?w) (Some 738886) (Some 738886) 2 = Inr ?dates"
    using two_tasks by (simp add: world_with_def)
  have acc: "\<forall>t\<in>set ?dates. \<exists>hs k sl. scrape_date_combination_sync_retry ?w t = Some (Inr hs, k, sl)"
    using retry_world_full[where cs = "\<lambda>k. replicate 100 failing_card"] by simp
  have len: "length (accepted_batch ?w t) = 100" for t
    using accepted_world_full[where cs = "\<lambda>k. replicate 100 failing_card" and task = t] by simp
  from run_all_accepted[OF dw acc, of 30 Map.empty] show ?thesis
    by (simp add: len csv_name_world_with)
qed

section \<open>The parameter \<open>ttt\<close>\<close>

text \<open>
  C9 (the code at the failing input). The parameter \<open>ttt\<close> takes no part in what
  \<open>scrape_all_dates_sync\<close> does. \<open>main\<close> passes \<open>TTT = 30\<close> ("total number of starting
  dates") and no dates: on 2024-01-01 the partitioner then yields 155 tasks over 31
  check-in dates, not 30, and all 155 are run (on pages of 100 cards, 15500 records are
  printed as the total and read back from the file).
\<close>

theorem ttt_is_ignored:
  "scrape_all_dates_sync w ttt los sd ed files = scrape_all_dates_sync w ttt' los sd ed files \<and>
   map_sum id (\<lambda>tasks. (checkin_days tasks, length tasks)) (get_dates 738886 None None 5) = Inr (31, 155) \<and>
   map_option (map_sum id (\<lambda>p. (length (all_counts (fst p)), printed_total (fst p), snd p)))
     (main (world_with (\<lambda>t k. session_with (replicate 100 failing_card))) Map.empty)
     = Some (Inr (155, 15500, 15500))"
proof -
  let ?w = "world_with (\<lambda>t k. session_with (replicate 100 failing_card))"
  let ?dates = "tasks_of 738886 (738886 + 30) 5"
  have same: "scrape_all_dates_sync w ttt los sd ed files = scrape_all_dates_sync w ttt' los sd ed files"
    by (simp add: scrape_all_dates_sync_def)
  have d: "get_dates 738886 None None 5 = Inr ?dates"
    by (rule get_dates_default) (simp_all add: MAXORDINAL_def)
  have n: "checkin_days ?dates = 31" "length ?dates = 155"
    by (simp_all add: checkin_days_tasks_of length_tasks_of)
  have dw: "get_dates (clock_today ?w) None None 5 = Inr ?dates"
    using d by (simp add: world_with_def)
  have acc: "\<forall>t\<in>set ?dates. \<exists>hs k sl. scrape_date_combination_sync_retry ?w t = Some (Inr hs, k, sl)"
    using retry_world_full[where cs = "\<lambda>k. replicate 100 failing_card"] by simp
  have len: "length (accepted_batch ?w t) = 100" for t
    using accepted_world_full[where cs = "\<lambda>k. replicate 100 failing_card" and task = t] by simp
  define r where "r = \<lparr>run_returned = PStr (csv_name ?w),
                printed_total = sum_list (map (\<lambda>t. length (accepted_batch ?w t)) ?dates),
                all_counts = map (\<lambda>t. length (accepted_batch ?w t)) ?dates,
                files_after = appends (map (accepted_batch ?w) (sort_key (lock_time ?w) ?dates))
                                (csv_name ?w) (Map.empty(csv_name ?w := None))\<rparr>"
  have run: "scrape_all_dates_sync ?w 30 5 None None Map.empty = Some (Inr r)"
    unfolding r_def by (rule run_all_accepted[OF dw acc])
  have ret: "run_returned r = PStr (csv_name ?w)"
    and cnt: "all_counts r = map (\<lambda>t. length (accepted_batch ?w t)) ?dates"
    and tot: "printed_total r = sum_list (map (\<lambda>t. length (accepted_batch ?w t)) ?dates)"
    and fa: "files_after r = appends (map (accepted_batch ?w) (sort_key (lock_time ?w) ?dates))
                                (csv_name ?w) (Map.empty(csv_name ?w := None))"
    by (simp_all add: r_def)
  have tot': "printed_total r = 15500" and cnt': "length (all_counts r) = 155"
    using tot cnt n(2) by (simp_all add: len sum_list_triv del: length_upto)
  have ne: "map (accepted_batch ?w) (sort_key (lock_time ?w) ?dates) \<noteq> []"
  proof
    assume "map (accepted_batch ?w) (sort_key (lock_time ?w) ?dates) = []"
    then have "length (sort_key (lock_time ?w) ?dates) = 0" by simp
    with n(2) show False by (simp del: length_upto)
  qed
  have "(Map.empty(csv_name ?w := None)) (csv_name ?w) = None" by simp
  from this ne have "appends (map (accepted_batch ?w) (sort_key (lock_time ?w) ?dates))
      (csv_name ?w) (Map.empty(csv_name ?w := None)) (csv_name ?w) \<noteq> None"
    using appends_absent by (metis option.distinct(1))
  with fa obtain ls where ls: "files_after r (csv_name ?w) = Some ls" by auto
  from run_file_lines[OF run ls] obtain rows where
    rows: "ls = Header record_fields # rows" "length rows = printed_total r"
      "filter (\<lambda>l. \<not> is_blank l) rows = rows" by blast
  have "read_csv_len (files_after r) (csv_name ?w) = Inr 15500"
    using ls rows tot'
    by (simp add: read_csv_len_def is_blank_def record_fields_def hotel_fields_def)
  with run ret tot' cnt' have "main ?w Map.empty = Some (Inr (r, 15500))"
    by (simp add: main_def bindE_def)
  with tot' cnt' same d n show ?thesis by simp
qed

section \<open>The schema of the records\<close>

text \<open>
  C10. Every record an attempt returns, for every card and every task, has the same keys
  in the same order: the thirteen keys of \<open>hotel_dict\<close> followed by \<open>checkin\<close> and
  \<open>checkout\<close>. So the batch every worker writes has those fifteen columns, in that order,
  whichever batch is written first.
\<close>

theorem record_schema_fixed:
  "keys (extract_card c) = hotel_fields \<and> length hotel_fields = 13 \<and>
   (scrape_date_combination_sync fmt s ci co = Inr hotels
      \<longrightarrow> (\<forall>h\<in>set hotels. keys h = hotel_fields @ [''checkin'', ''checkout''])) \<and>
   (worker w (ci, co, csv) = Some (Inr (n, wr))
      \<longrightarrow> (\<exists>hotels. wr = write_to_csv hotels csv \<and> n = length hotels \<and>
                    (\<forall>h\<in>set hotels. keys h = hotel_fields @ [''checkin'', ''checkout'']) \<and>
                    columns (DataFrame hotels) = hotel_fields @ [''checkin'', ''checkout'']))"
proof -
  have a: "\<forall>h\<in>set hotels. keys h = hotel_fields @ [''checkin'', ''checkout'']"
    if "scrape_date_combination_sync fmt s ci co = Inr hotels"
    using attempt_keys[OF that] by (simp add: record_fields_def)
  have b: "\<exists>hotels. wr = write_to_csv hotels csv \<and> n = length hotels \<and>
                    (\<forall>h\<in>set hotels. keys h = hotel_fields @ [''checkin'', ''checkout'']) \<and>
                    columns (DataFrame hotels) = hotel_fields @ [''checkin'', ''checkout'']"
    if "worker w (ci, co, csv) = Some (Inr (n, wr))"
  proof -
    from worker_Inr[OF that] obtain hs k sl where
      r: "scrape_date_combination_sync_retry w (ci, co) = Some (Inr hs, k, sl)" and
      l: "100 \<le> length hs" and y: "(n, wr) = (length hs, write_to_csv hs csv)" by blast
    from r have "scrape_retry_loop (attempt_of w (ci, co)) 0 0 = Some (Inr hs, k, sl)"
      by (simp add: scrape_date_combination_sync_retry_def)
    from retry_sound[OF this] obtain j where "Inr hs = attempt_of w (ci, co) j" by auto
    then have "scrape_date_combination_sync (format_date w) (session_of w (ci, co) j) ci co = Inr hs"
      by (simp add: attempt_of_def)
    from attempt_keys[OF this] have ks: "\<forall>h\<in>set hs. keys h = record_fields" .
    from l have "hs \<noteq> []" by auto
    from columns_DataFrame[OF this ks] ks y show ?thesis
      by (auto simp: record_fields_def)
  qed
  from a b keys_extract_card show ?thesis by (simp add: hotel_fields_def)
qed

text \<open>
  An attempt on a page of two cards, one of which answers no lookup, and the batch of a
  worker on a page of 100 cards.
\<close>

theorem record_schema_fixed_witness:
  "map keys (map (\<lambda>h. dict_set ''checkout'' (PStr ''2 January 2024'')
                           (dict_set ''checkin'' (PStr ''1 January 2024'') h))
                 [extract_card sample_card, extract_card failing_card])
     = [hotel_fields @ [''checkin'', ''checkout''], hotel_fields @ [''checkin'', ''checkout'']] \<and>
   columns (DataFrame (accepted_batch (world_with (\<lambda>t k. session_with (replicate 100 failing_card)))
                          (738886, 738887)))
     = hotel_fields @ [''checkin'', ''checkout'']"
proof -
  let ?w = "world_with (\<lambda>t k. session_with (replicate 100 failing_card))"
  let ?t = "(738886 :: int, 738887 :: int)"
  let ?hs = "map (\<lambda>h. dict_set ''checkout'' (PStr ''2 January 2024'')
                           (dict_set ''checkin'' (PStr ''1 January 2024'') h))
                   [extract_card sample_card, extract_card failing_card]"
  have "scrape_date_combination_sync january (session_with [sample_card, failing_card]) 738886 738887
          = Inr ?hs"
    by (simp add: scrape_session_with january_def)
  with record_schema_fixed[where fmt = january and s = "session_with [sample_card, failing_card]"
      and ci = 738886 and co = 738887 and hotels = ?hs]
  have first: "\<forall>h\<in>set ?hs. keys h = hotel_fields @ [''checkin'', ''checkout'']" by blast
  obtain hs k sl where r: "scrape_date_combination_sync_retry ?w ?t = Some (Inr hs, k, sl)"
    using retry_world_full[where cs = "\<lambda>k. replicate 100 failing_card" and task = ?t] by simp
  then have ab: "accepted_batch ?w ?t = hs" by (rule accepted_batch_eq)
  from r have wk: "worker ?w (738886, 738887, ''out.csv'') = Some (Inr (length hs, write_to_csv hs ''out.csv''))"
    by (rule worker_accepted)
  from record_schema_fixed[where w = ?w and ci = 738886 and co = 738887 and csv = "''out.csv''"
      and n = "length hs" and wr = "write_to_csv hs ''out.csv''"] wk
  obtain hotels where h: "write_to_csv hs ''out.csv'' = write_to_csv hotels ''out.csv''"
    "columns (DataFrame hotels) = hotel_fields @ [''checkin'', ''checkout'']" by blast
  have "write_to_csv hs ''out.csv'' Map.empty ''out.csv'' = write_to_csv hotels ''out.csv'' Map.empty ''out.csv''"
    using h(1) by simp
  then have "columns (DataFrame hs) = columns (DataFrame hotels)"
    by (simp add: write_absent)
  with h(2) ab first show ?thesis by simp
qed

section \<open>Failures inside an attempt\<close>

















end
